theory Spec2Isabelle
  imports Complex_Main "HOL-Library.Multiset" "HOL-Library.AList"
begin

section \<open>Strings as the helpers of the test suite use them\<close>

text \<open>
  JavaScript strings are modelled as \<^typ>\<open>string\<close>. The suite only ever inspects ASCII
  characters (separators, digits, header names, key patterns), so white space is the ASCII
  white space that \<^verbatim>\<open>String.prototype.trim\<close> and the regex class \<^verbatim>\<open>\s\<close> accept, and case
  conversion acts on the letters A to Z.
\<close>

definition is_space :: "char \<Rightarrow> bool" where
  "is_space c = (c \<in> set [CHR '' '', CHR 0x09, CHR 0x0A, CHR 0x0B, CHR 0x0C, CHR 0x0D])"

definition trim :: "string \<Rightarrow> string" where
  "trim s = rev (dropWhile is_space (rev (dropWhile is_space s)))"

definition lower_char :: "char \<Rightarrow> char" where
  "lower_char c =
     (case map_of (zip ''ABCDEFGHIJKLMNOPQRSTUVWXYZ'' ''abcdefghijklmnopqrstuvwxyz'') c of
        Some l \<Rightarrow> l
      | None \<Rightarrow> c)"

definition upper_char :: "char \<Rightarrow> char" where
  "upper_char c =
     (case map_of (zip ''abcdefghijklmnopqrstuvwxyz'' ''ABCDEFGHIJKLMNOPQRSTUVWXYZ'') c of
        Some u \<Rightarrow> u
      | None \<Rightarrow> c)"

definition toLowerCase :: "string \<Rightarrow> string" where
  "toLowerCase s = map lower_char s"

definition toUpperCase :: "string \<Rightarrow> string" where
  "toUpperCase s = map upper_char s"

text \<open>\<^verbatim>\<open>s.split(sep)\<close> for a one-character separator: the empty string gives one empty part.\<close>

fun split_on :: "char \<Rightarrow> string \<Rightarrow> string list" where
  "split_on sep [] = [[]]"
| "split_on sep (x # xs) =
     (if x = sep then [] # split_on sep xs
      else (case split_on sep xs of
              [] \<Rightarrow> [[x]]
            | p # ps \<Rightarrow> (x # p) # ps))"

text \<open>\<^verbatim>\<open>s.padStart(n, c)\<close> for a one-character filler.\<close>

definition padStart :: "nat \<Rightarrow> char \<Rightarrow> string \<Rightarrow> string" where
  "padStart n c s = replicate (n - length s) c @ s"

definition digit_char :: "nat \<Rightarrow> char" where
  "digit_char d = ''0123456789'' ! d"

text \<open>\<^verbatim>\<open>String(n)\<close> for a non-negative integer: its decimal digits.\<close>

fun string_of_nat :: "nat \<Rightarrow> string" where
  "string_of_nat n =
     (if n < 10 then [digit_char n] else string_of_nat (n div 10) @ [digit_char (n mod 10)])"

definition is_digit :: "char \<Rightarrow> bool" where
  "is_digit c = (c \<in> set ''0123456789'')"

text \<open>Does the text contain the pattern as a contiguous piece (an unanchored literal regex)?\<close>

fun starts_with :: "string \<Rightarrow> string \<Rightarrow> bool" where
  "starts_with [] s = True"
| "starts_with (p # ps) [] = False"
| "starts_with (p # ps) (c # cs) = (p = c \<and> starts_with ps cs)"

fun contains :: "string \<Rightarrow> string \<Rightarrow> bool" where
  "contains pat [] = starts_with pat []"
| "contains pat (c # cs) = (starts_with pat (c # cs) \<or> contains pat cs)"

text \<open>The nullish operators: \<^verbatim>\<open>a ?? b\<close> on an optional value.\<close>

definition orelse :: "'a option \<Rightarrow> 'a option \<Rightarrow> 'a option" where
  "orelse a b = (case a of Some x \<Rightarrow> Some x | None \<Rightarrow> b)"

definition or_default :: "'a option \<Rightarrow> 'a \<Rightarrow> 'a" where
  "or_default a d = (case a of Some x \<Rightarrow> x | None \<Rightarrow> d)"

text \<open>\<^verbatim>\<open>s.trim() || undefined\<close>: an empty string counts as not configured.\<close>

definition trimmed_or_undefined :: "string \<Rightarrow> string option" where
  "trimmed_or_undefined s = (let t = trim s in if t = [] then None else Some t)"


section \<open>Stress scenario: percentiles and thresholds\<close>

text \<open>
  After the workers finish, the stress spec sorts \<^verbatim>\<open>timings\<close> ascending and reads
  \<^verbatim>\<open>timings[Math.floor(timings.length * p)] ?? 0\<close> for p = 0.5, 0.9, 0.95, 0.99 and
  \<^verbatim>\<open>timings[timings.length - 1] ?? 0\<close> for the maximum. A duration is
  \<^verbatim>\<open>Date.now() - start\<close>, an integer number of milliseconds. The product
  \<^verbatim>\<open>timings.length * p\<close> is taken over the rationals; at the inputs evaluated below
  (length 0, and the level one half, a power of two) the double-precision product is
  exact, so the model and the source agree there.
\<close>

definition index_or_zero :: "int list \<Rightarrow> int \<Rightarrow> int" where
  "index_or_zero xs i = (if 0 \<le> i \<and> i < int (length xs) then xs ! nat i else 0)"

definition stress_index :: "nat \<Rightarrow> rat \<Rightarrow> int" where
  "stress_index len p = \<lfloor>of_nat len * p\<rfloor>"

definition stress_pick :: "int list \<Rightarrow> rat \<Rightarrow> int" where
  "stress_pick sorted_timings p =
     index_or_zero sorted_timings (stress_index (length sorted_timings) p)"

record summary =
  p50 :: int
  p90 :: int
  p95 :: int
  p99 :: int
  max_ms :: int

definition stress_summary :: "int list \<Rightarrow> summary" where
  "stress_summary collected =
     (let timings = sort collected in
      \<lparr> p50 = stress_pick timings (1 / 2),
        p90 = stress_pick timings (9 / 10),
        p95 = stress_pick timings (95 / 100),
        p99 = stress_pick timings (99 / 100),
        max_ms = index_or_zero timings (int (length timings) - 1) \<rparr>)"

text \<open>
  The thresholds come from \<^verbatim>\<open>mystappMaxLoginMs\<close>, \<^verbatim>\<open>mystappMaxP95LoginMs\<close> and
  \<^verbatim>\<open>mystappMaxP99LoginMs\<close>: a finite number or \<^verbatim>\<open>undefined\<close>. Each \<^verbatim>\<open>expect\<close> throws when
  it fails, so the first failing assertion is the result; the last assertion compares the
  number of timings with the number of users.
\<close>

datatype assertion_failure =
    MaxLoginExceeded int
  | P95LoginExceeded int
  | P99LoginExceeded int
  | TimingsLengthMismatch nat nat

definition exceeds :: "int \<Rightarrow> rat option \<Rightarrow> bool" where
  "exceeds observed allowed =
     (case allowed of None \<Rightarrow> False | Some a \<Rightarrow> \<not> (of_int observed \<le> a))"

definition stress_assertions ::
  "nat \<Rightarrow> int list \<Rightarrow> rat option \<Rightarrow> rat option \<Rightarrow> rat option \<Rightarrow> assertion_failure + summary" where
  "stress_assertions users_length collected maxAllowed p95Allowed p99Allowed =
     (let s = stress_summary collected in
      if exceeds (max_ms s) maxAllowed then Inl (MaxLoginExceeded (max_ms s))
      else if exceeds (p95 s) p95Allowed then Inl (P95LoginExceeded (p95 s))
      else if exceeds (p99 s) p99Allowed then Inl (P99LoginExceeded (p99 s))
      else if length collected \<noteq> users_length
        then Inl (TimingsLengthMismatch (length collected) users_length)
      else Inr s)"


section \<open>Offline aggregator: percentile\<close>

text \<open>
  \<^verbatim>\<open>percentile(values, p)\<close> of \<^verbatim>\<open>scripts/mystapp-perf-summary.mjs\<close>, with p in percent:
  \<^verbatim>\<open>undefined\<close> on an empty list, otherwise the element of the sorted copy at
  \<^verbatim>\<open>Math.ceil((p / 100) * length) - 1\<close> clamped into the list.
\<close>

definition percentile_index :: "nat \<Rightarrow> rat \<Rightarrow> int" where
  "percentile_index len p =
     (let idx = \<lceil>(p / 100) * of_nat len\<rceil> - 1
      in min (int len - 1) (max 0 idx))"

definition percentile :: "int list \<Rightarrow> rat \<Rightarrow> int option" where
  "percentile vals p =
     (if length vals = 0 then None
      else let sorted = sort vals
           in Some (sorted ! nat (percentile_index (length sorted) p)))"


section \<open>Stress scenario: the worker pool\<close>

text \<open>
  The spec starts \<^verbatim>\<open>Math.max(1, CONCURRENCY)\<close> copies of \<^verbatim>\<open>worker\<close>, which share the
  cursor \<^verbatim>\<open>next\<close> and the list \<^verbatim>\<open>timings\<close>. JavaScript runs a worker without interruption
  until its next \<^verbatim>\<open>await\<close>, so a worker's execution is cut into two kinds of blocks:
  from its start to the first \<^verbatim>\<open>await\<close> (or its \<^verbatim>\<open>return\<close>), and from the settling of the
  awaited login through \<^verbatim>\<open>timings.push\<close> and the next read-and-increment of the cursor to
  the following \<^verbatim>\<open>await\<close> (or \<^verbatim>\<open>return\<close>). The awaited login can also reject, which ends
  the worker with an exception. Which worker runs its next block, and the measured
  duration, are chosen by the environment: a schedule is a list of such events.

  The fields \<open>claims\<close> (which worker was handed which index) and \<open>recorded\<close> (the index
  behind each pushed duration) are history variables: the source does not store them, the
  statements about exactly-once dispatch need them.
\<close>

datatype wstate = Ready | Awaiting nat | Returned | Rejected nat

record pool =
  nxt :: nat
  timings :: "int list"
  workers :: "wstate list"
  claims :: "(nat \<times> nat) list"
  recorded :: "nat list"

datatype event = Start nat | Settle nat int | Throw nat

text \<open>
  Lines 46 to 50 of the worker: \<^verbatim>\<open>const current = next; next += 1;
  if (current >= users.length) return; const user = users[current];\<close>
  and then the login is awaited.
\<close>

definition claim :: "nat \<Rightarrow> nat \<Rightarrow> pool \<Rightarrow> pool" where
  "claim users_length w s =
     (let current = nxt s;
          s1 = s\<lparr>nxt := nxt s + 1\<rparr>
      in if current \<ge> users_length then s1\<lparr>workers := (workers s1)[w := Returned]\<rparr>
         else s1\<lparr>workers := (workers s1)[w := Awaiting current],
                 claims := claims s1 @ [(w, current)]\<rparr>)"

fun step :: "nat \<Rightarrow> event \<Rightarrow> pool \<Rightarrow> pool option" where
  "step n (Start w) s =
     (if w < length (workers s) \<and> workers s ! w = Ready then Some (claim n w s) else None)"
| "step n (Settle w durationMs) s =
     (if w < length (workers s) then
        (case workers s ! w of
           Awaiting i \<Rightarrow>
             Some (claim n w (s\<lparr>timings := timings s @ [durationMs],
                                 recorded := recorded s @ [i]\<rparr>))
         | _ \<Rightarrow> None)
      else None)"
| "step n (Throw w) s =
     (if w < length (workers s) then
        (case workers s ! w of
           Awaiting i \<Rightarrow> Some (s\<lparr>workers := (workers s)[w := Rejected i]\<rparr>)
         | _ \<Rightarrow> None)
      else None)"

fun exec :: "nat \<Rightarrow> event list \<Rightarrow> pool \<Rightarrow> pool option" where
  "exec n [] s = Some s"
| "exec n (e # es) s = (case step n e s of None \<Rightarrow> None | Some s' \<Rightarrow> exec n es s')"

definition init_pool :: "int \<Rightarrow> pool" where
  "init_pool concurrency =
     \<lparr> nxt = 0, timings = [],
       workers = replicate (nat (max 1 concurrency)) Ready,
       claims = [], recorded = [] \<rparr>"

text \<open>\<^verbatim>\<open>Promise.all\<close> resolves when every worker has returned.\<close>

definition all_returned :: "pool \<Rightarrow> bool" where
  "all_returned s = list_all (\<lambda>w. w = Returned) (workers s)"

definition some_rejected :: "pool \<Rightarrow> bool" where
  "some_rejected s = list_ex (\<lambda>w. case w of Rejected i \<Rightarrow> True | _ \<Rightarrow> False) (workers s)"

text \<open>The indices that are claimed and whose login has not pushed a duration.\<close>

fun held :: "wstate \<Rightarrow> nat list" where
  "held (Awaiting i) = [i]"
| "held (Rejected i) = [i]"
| "held Ready = []"
| "held Returned = []"

definition outstanding :: "pool \<Rightarrow> nat list" where
  "outstanding s = concat (map held (workers s))"


text \<open>
  Bookkeeping for the proofs: how many workers have started, how many logins have been
  settled one way or the other, and the invariant that ties the cursor to the indices
  handed out, pushed and still in flight.
\<close>

fun started :: "wstate \<Rightarrow> nat" where
  "started Ready = 0"
| "started (Awaiting i) = 1"
| "started Returned = 1"
| "started (Rejected i) = 1"

fun settled :: "wstate \<Rightarrow> nat" where
  "settled (Rejected i) = 1"
| "settled Ready = 0"
| "settled (Awaiting i) = 0"
| "settled Returned = 0"

definition progress :: "pool \<Rightarrow> nat" where
  "progress s = sum_list (map started (workers s)) + length (recorded s) + sum_list (map settled (workers s))"

definition pool_inv :: "nat \<Rightarrow> nat \<Rightarrow> pool \<Rightarrow> bool" where
  "pool_inv n c s \<longleftrightarrow>
     length (workers s) = c
   \<and> map snd (claims s) = [0..<min (nxt s) n]
   \<and> mset (recorded s) + mset (outstanding s) = mset [0..<min (nxt s) n]
   \<and> length (timings s) = length (recorded s)
   \<and> (Returned \<in> set (workers s) \<longrightarrow> n \<le> nxt s)
   \<and> (\<forall>p \<in> set (claims s). fst p < c)"


section \<open>Credential resolution\<close>

text \<open>
  \<^verbatim>\<open>requireMystappUsers(count)\<close> reads the process environment and the optional local
  configuration file. The environment is a partial map from variable names to strings and
  the parsed file an optional record whose fields are all optional; \<^verbatim>\<open>count\<close> (here
  \<open>cnt\<close>) is a JavaScript number, modelled as an integer, so that what the source does
  with a negative count is part of the model.
\<close>

type_synonym env = "string \<rightharpoonup> string"

record MystappLocalConfig =
  local_baseURL :: "string option"
  local_user :: "string option"
  local_password :: "string option"
  local_users :: "string list option"
  local_userPrefix :: "string option"

record MystappUser =
  username :: string
  password :: string

datatype config_error =
    MissingPasswordForUsers
  | UserListTooShort nat int
  | MissingPasswordForSingleUser
  | SingleUserNotReusable string int
  | MissingCredentials

text \<open>The five constants that open the function, one definition each.\<close>

definition cfg_password :: "env \<Rightarrow> MystappLocalConfig option \<Rightarrow> string option" where
  "cfg_password env local =
     trimmed_or_undefined
       (or_default (orelse (env ''MYSTAPP_PASSWORD'') (Option.bind local local_password)) [])"

definition cfg_usersCsv :: "env \<Rightarrow> string option" where
  "cfg_usersCsv env = trimmed_or_undefined (or_default (env ''MYSTAPP_USERS'') [])"

definition cfg_userPrefix :: "env \<Rightarrow> MystappLocalConfig option \<Rightarrow> string option" where
  "cfg_userPrefix env local =
     trimmed_or_undefined
       (or_default (orelse (env ''MYSTAPP_USER_PREFIX'') (Option.bind local local_userPrefix)) [])"

definition cfg_singleUser :: "env \<Rightarrow> MystappLocalConfig option \<Rightarrow> string option" where
  "cfg_singleUser env local =
     trimmed_or_undefined
       (or_default
          (orelse (env ''MYSTAPP_USER'')
             (orelse (env ''MYSTAPP_USERNAME'') (Option.bind local local_user))) [])"

definition cfg_localUsers :: "MystappLocalConfig option \<Rightarrow> string list option" where
  "cfg_localUsers local = Option.bind local local_users"

text \<open>\<^verbatim>\<open>.map((u) => u.trim()).filter(Boolean)\<close>: trimmed, empty names dropped.\<close>

definition trimmed_names :: "string list \<Rightarrow> string list" where
  "trimmed_names us = filter (\<lambda>u. u \<noteq> []) (map trim us)"

definition explicitUsernames :: "env \<Rightarrow> MystappLocalConfig option \<Rightarrow> string list" where
  "explicitUsernames env local =
     (case cfg_usersCsv env of
        Some usersCsv \<Rightarrow> trimmed_names (split_on CHR '','' usersCsv)
      | None \<Rightarrow> trimmed_names (or_default (cfg_localUsers local) []))"

definition reuseSingleUser :: "env \<Rightarrow> bool" where
  "reuseSingleUser env = (trim (or_default (env ''MYSTAPP_REUSE_SINGLE_USER'') []) = ''1'')"

text \<open>
  \<^verbatim>\<open>xs.slice(0, end)\<close>: a negative end counts from the end of the list.
  \<^verbatim>\<open>Array.from({ length: count }, f)\<close>: a negative length is an empty array.
\<close>

definition slice0 :: "'a list \<Rightarrow> int \<Rightarrow> 'a list" where
  "slice0 xs e = (if e < 0 then take (nat (int (length xs) + e)) xs else take (nat e) xs)"

definition array_from :: "int \<Rightarrow> (nat \<Rightarrow> 'a) \<Rightarrow> 'a list" where
  "array_from len f = map f [0..<nat len]"

definition generated_username :: "string \<Rightarrow> nat \<Rightarrow> string" where
  "generated_username userPrefix i =
     (let index1Based = i + 1;
          padded = padStart 2 CHR ''0'' (string_of_nat index1Based)
      in userPrefix @ padded)"

definition requireMystappUsers ::
  "env \<Rightarrow> MystappLocalConfig option \<Rightarrow> int \<Rightarrow> config_error + MystappUser list" where
  "requireMystappUsers env local cnt =
     (let names = explicitUsernames env local in
      if length names > 0 then
        (case cfg_password env local of
           None \<Rightarrow> Inl MissingPasswordForUsers
         | Some pw \<Rightarrow>
             if int (length names) < cnt then Inl (UserListTooShort (length names) cnt)
             else Inr (map (\<lambda>u. \<lparr>username = u, password = pw\<rparr>) (slice0 names cnt)))
      else
        (case cfg_singleUser env local of
           Some singleUser \<Rightarrow>
             (case cfg_password env local of
                None \<Rightarrow> Inl MissingPasswordForSingleUser
              | Some pw \<Rightarrow>
                  if cnt \<noteq> 1 then
                    (if \<not> reuseSingleUser env then Inl (SingleUserNotReusable singleUser cnt)
                     else Inr (array_from cnt (\<lambda>_. \<lparr>username = singleUser, password = pw\<rparr>)))
                  else Inr [\<lparr>username = singleUser, password = pw\<rparr>])
         | None \<Rightarrow>
             (case (cfg_userPrefix env local, cfg_password env local) of
                (Some userPrefix, Some pw) \<Rightarrow>
                  Inr (array_from cnt
                         (\<lambda>i. \<lparr>username = generated_username userPrefix i, password = pw\<rparr>))
              | _ \<Rightarrow> Inl MissingCredentials)))"


section \<open>Date conversion of the date-field filler\<close>

datatype DateFormat = DD_MM_YYYY | MM_DD_YYYY

datatype date_error = InvalidDate | InvalidYear | InvalidDayMonth

definition mystappDateFormat :: "env \<Rightarrow> DateFormat" where
  "mystappDateFormat env =
     (let raw = toUpperCase (trim (or_default (env ''MYSTAPP_DATE_FORMAT'') ''MM/DD/YYYY''))
      in if raw = ''DD/MM/YYYY'' then DD_MM_YYYY else MM_DD_YYYY)"

text \<open>The regex \<^verbatim>\<open>^[0-9]{lo,hi}$\<close>.\<close>

definition digits_between :: "nat \<Rightarrow> nat \<Rightarrow> string \<Rightarrow> bool" where
  "digits_between lo hi s = (lo \<le> length s \<and> length s \<le> hi \<and> list_all is_digit s)"

definition toIsoDate :: "string \<Rightarrow> DateFormat \<Rightarrow> date_error + string" where
  "toIsoDate raw format =
     (case map trim (split_on CHR ''/'' (trim raw)) of
        [a, b, c] \<Rightarrow>
          (let dd = (if format = DD_MM_YYYY then a else b);
               mm = (if format = DD_MM_YYYY then b else a);
               yyyy = c
           in if \<not> digits_between 4 4 yyyy then Inl InvalidYear
              else if \<not> digits_between 1 2 dd \<or> \<not> digits_between 1 2 mm then Inl InvalidDayMonth
              else Inr (yyyy @ ''-'' @ padStart 2 CHR ''0'' mm @ ''-'' @ padStart 2 CHR ''0'' dd))
      | _ \<Rightarrow> Inl InvalidDate)"

text \<open>
  \<^verbatim>\<open>fillDateInput\<close> first fixes the value it will write and compare the read-back with:
  \<^verbatim>\<open>inputType === 'date' ? toIsoDate(rawDate, format) : rawDate\<close>, where the input type is
  \<^verbatim>\<open>undefined\<close> when it could not be read. Then up to three attempts follow; each either
  throws or ends with a read-back, and the first attempt whose trimmed read-back equals the
  value ends the function. When none does, the function throws.
\<close>

definition expected_value :: "string option \<Rightarrow> DateFormat \<Rightarrow> string \<Rightarrow> date_error + string" where
  "expected_value inputType format rawDate =
     (if inputType = Some ''date'' then toIsoDate rawDate format else Inr rawDate)"

datatype attempt = Threw | ReadBack string

datatype fill_error = BadDate date_error | CouldNotSet string

fun attempts_succeed :: "string \<Rightarrow> attempt list \<Rightarrow> bool" where
  "attempts_succeed v [] = False"
| "attempts_succeed v (Threw # rest) = attempts_succeed v rest"
| "attempts_succeed v (ReadBack r # rest) = (trim r = v \<or> attempts_succeed v rest)"

definition fillDateInput ::
  "env \<Rightarrow> string option \<Rightarrow> string \<Rightarrow> attempt \<Rightarrow> attempt \<Rightarrow> attempt \<Rightarrow> fill_error + unit" where
  "fillDateInput env inputType rawDate fill keyboard js =
     (case expected_value inputType (mystappDateFormat env) rawDate of
        Inl e \<Rightarrow> Inl (BadDate e)
      | Inr v \<Rightarrow> if attempts_succeed v [fill, keyboard, js] then Inr () else Inl (CouldNotSet v))"


section \<open>Network recorder: redaction\<close>

text \<open>
  A header object is the list of its own properties in enumeration order; the names of an
  object's properties are pairwise different. On the plain object \<^verbatim>\<open>out\<close>, the assignment
  \<^verbatim>\<open>out[k] = v\<close> overwrites the property in place when it exists and appends it otherwise,
  except for the name \<^verbatim>\<open>__proto__\<close>: that assignment runs the prototype setter inherited
  from \<^verbatim>\<open>Object.prototype\<close>, which ignores a string and stores nothing.
\<close>

type_synonym headers = "(string \<times> string) list"

definition blocked :: "string list" where
  "blocked = [''authorization'', ''cookie'', ''set-cookie'', ''proxy-authorization'', ''x-api-key'']"

definition redactHeaders :: "headers \<Rightarrow> headers" where
  "redactHeaders headers =
     fold (\<lambda>(k, v) out.
             let key = toLowerCase k
             in if key \<in> set blocked then out
                else if k = ''__proto__'' then out
                else AList.update k v out)
          headers []"

text \<open>
  The values \<^verbatim>\<open>redactJson\<close> meets: what \<^verbatim>\<open>JSON.parse\<close> returns, \<^verbatim>\<open>undefined\<close>, which the
  function also accepts, and its own results. An object is its prototype and the list of
  its own entries, as \<^verbatim>\<open>Object.entries\<close> yields them. The prototype is
  \<^verbatim>\<open>Object.prototype\<close> for every object that \<^verbatim>\<open>JSON.parse\<close> or a literal \<^verbatim>\<open>{}\<close> creates; it
  is something else only after an assignment to \<^verbatim>\<open>__proto__\<close>.
\<close>

datatype 'a proto = ObjectPrototype | NullPrototype | Proto 'a

datatype json =
    JNull
  | JUndefined
  | JBool bool
  | JNum rat
  | JStr string
  | JArr "json list"
  | JObj "json proto" "(string \<times> json) list"

abbreviation JObject :: "(string \<times> json) list \<Rightarrow> json" where
  "JObject kvs \<equiv> JObj ObjectPrototype kvs"

text \<open>The regex \<^verbatim>\<open>/^bearer\s+/i\<close>.\<close>

definition is_bearer :: "string \<Rightarrow> bool" where
  "is_bearer s = (toLowerCase (take 6 s) = ''bearer'' \<and> 6 < length s \<and> is_space (s ! 6))"

text \<open>
  The regex \<^verbatim>\<open>/(pass(word)?|token|secret|api[-_]?key|authorization|cookie)/i\<close>, unanchored:
  the key contains one of the alternatives, letter case ignored.
\<close>

definition key_patterns :: "string list" where
  "key_patterns =
     [''password'', ''pass'', ''token'', ''secret'', ''apikey'', ''api-key'', ''api_key'',
      ''authorization'', ''cookie'']"

definition sensitive_key :: "string \<Rightarrow> bool" where
  "sensitive_key k = list_ex (\<lambda>p. contains p (toLowerCase k)) key_patterns"

text \<open>
  The loop \<^verbatim>\<open>for (const [k, v] of Object.entries(obj)) out[k] = ...\<close> starts from
  \<^verbatim>\<open>out = {}\<close>. The keys of an object are pairwise different, so every assignment to a key
  other than \<^verbatim>\<open>__proto__\<close> appends an own entry, in the order of the loop. The assignment
  to the key \<^verbatim>\<open>__proto__\<close>, if the object has that key, appends nothing: the inherited setter
  makes an assigned object or array the prototype of \<^verbatim>\<open>out\<close>, makes the prototype empty for
  \<^verbatim>\<open>null\<close>, and ignores every other value. Below, \<open>assigned\<close> is the list of the keys with
  the values the loop assigns to them.
\<close>

definition proto_after :: "(string \<times> json) list \<Rightarrow> json proto" where
  "proto_after assigned =
     (case map_of assigned ''__proto__'' of
        None \<Rightarrow> ObjectPrototype
      | Some (JObj pr kvs) \<Rightarrow> Proto (JObj pr kvs)
      | Some (JArr xs) \<Rightarrow> Proto (JArr xs)
      | Some JNull \<Rightarrow> NullPrototype
      | Some v \<Rightarrow> ObjectPrototype)"

definition own_entries :: "(string \<times> json) list \<Rightarrow> (string \<times> json) list" where
  "own_entries assigned = filter (\<lambda>(k, v). k \<noteq> ''__proto__'') assigned"

definition assign_all :: "(string \<times> json) list \<Rightarrow> json" where
  "assign_all assigned = JObj (proto_after assigned) (own_entries assigned)"

text \<open>
  \<^verbatim>\<open>redactJson\<close> reads the own entries of an object and never its prototype; the result of
  the array case is a fresh array.
\<close>

function redactJson :: "json \<Rightarrow> nat \<Rightarrow> json" where
  "redactJson JNull depth = (if depth > 6 then JStr ''[truncated]'' else JNull)"
| "redactJson JUndefined depth = (if depth > 6 then JStr ''[truncated]'' else JUndefined)"
| "redactJson (JStr s) depth =
     (if depth > 6 then JStr ''[truncated]''
      else if is_bearer s then JStr ''[redacted]'' else JStr s)"
| "redactJson (JBool b) depth = (if depth > 6 then JStr ''[truncated]'' else JBool b)"
| "redactJson (JNum x) depth = (if depth > 6 then JStr ''[truncated]'' else JNum x)"
| "redactJson (JArr xs) depth =
     (if depth > 6 then JStr ''[truncated]''
      else JArr (map (\<lambda>v. redactJson v (depth + 1)) (take 50 xs)))"
| "redactJson (JObj pr kvs) depth =
     (if depth > 6 then JStr ''[truncated]''
      else assign_all (map (\<lambda>(k, v). (k, if sensitive_key k then JStr ''[redacted]''
                                           else redactJson v (depth + 1))) kvs))"
  by pat_completeness auto
termination
proof (relation "measure (\<lambda>(v, depth). size v)")
  show "wf (measure (\<lambda>(v, depth). size v))" by simp
next
  fix xs :: "json list" and depth :: nat and x :: json
  assume "x \<in> set (take 50 xs)"
  then have "x \<in> set xs" by (rule in_set_takeD)
  then have "size x \<le> size_list size xs" by (rule size_list_estimation') simp
  then show "((x, depth + 1), (JArr xs, depth)) \<in> measure (\<lambda>(v, depth). size v)" by simp
next
  fix pr :: "json proto" and kvs :: "(string \<times> json) list" and depth :: nat
    and x :: "string \<times> json" and xa :: string and y :: json
  assume "x \<in> set kvs" and "(xa, y) = x"
  then have "(xa, y) \<in> set kvs" by simp
  then have "size_prod (\<lambda>_. 0) size (xa, y) \<le> size_list (size_prod (\<lambda>_. 0) size) kvs"
    by (rule size_list_estimation') simp
  then show "((y, depth + 1), (JObj pr kvs, depth)) \<in> measure (\<lambda>(v, depth). size v)" by simp
qed

text \<open>
  Reading a value along a path of object keys and array positions, through own entries
  only: this is what \<^verbatim>\<open>JSON.stringify\<close> writes to the captured output.
\<close>

datatype seg = Key string | Idx nat

fun child :: "json \<Rightarrow> seg \<Rightarrow> json option" where
  "child (JObj pr kvs) (Key k) = map_of kvs k"
| "child (JArr xs) (Idx i) = (if i < length xs then Some (xs ! i) else None)"
| "child v s = None"

fun at_path :: "json \<Rightarrow> seg list \<Rightarrow> json option" where
  "at_path v [] = Some v"
| "at_path v (s # p) = (case child v s of None \<Rightarrow> None | Some c \<Rightarrow> at_path c p)"

text \<open>
  A path stays in what the redaction keeps as own entries: no sensitive key, no key
  \<^verbatim>\<open>__proto__\<close>, no array position from 50 on.
\<close>

fun kept_seg :: "seg \<Rightarrow> bool" where
  "kept_seg (Key k) = (\<not> sensitive_key k \<and> k \<noteq> ''__proto__'')"
| "kept_seg (Idx i) = (i < 50)"

text \<open>
  Every entry named \<^verbatim>\<open>password\<close>, anywhere in the value or in a prototype inside it, holds
  the redaction marker.
\<close>

fun password_hidden :: "json \<Rightarrow> bool" where
  "password_hidden (JObj (Proto p) kvs) =
     (list_all (\<lambda>(k, v). (k \<noteq> ''password'' \<or> v = JStr ''[redacted]'') \<and> password_hidden v) kvs
      \<and> password_hidden p)"
| "password_hidden (JObj pr kvs) =
     list_all (\<lambda>(k, v). (k \<noteq> ''password'' \<or> v = JStr ''[redacted]'') \<and> password_hidden v) kvs"
| "password_hidden (JArr xs) = list_all password_hidden xs"
| "password_hidden v = True"

text \<open>No object of the value, at any level of its own entries, has the key \<^verbatim>\<open>__proto__\<close>.\<close>

fun no_proto_key :: "json \<Rightarrow> bool" where
  "no_proto_key (JObj pr kvs) = list_all (\<lambda>(k, v). k \<noteq> ''__proto__'' \<and> no_proto_key v) kvs"
| "no_proto_key (JArr xs) = list_all no_proto_key xs"
| "no_proto_key v = True"


section \<open>Grid readiness\<close>









text \<open>The test of the header loop on one entry, for the proofs.\<close>

definition keep_header :: "string \<times> string \<Rightarrow> bool" where
  "keep_header kv = (toLowerCase (fst kv) \<notin> set blocked \<and> fst kv \<noteq> ''__proto__'')"


section \<open>Theorems\<close>

subsection \<open>Percentile conventions\<close>

text \<open>
  C3. On a sorted list the stress scenario reads the element at \<open>floor (p * length)\<close>
  (0 when that is outside the list), the offline aggregator, for a non-empty list, the
  element at \<open>ceil (p * length) - 1\<close> clamped into the list; and the two select different
  elements for some non-empty sorted list and some level: on 100, 200, 300, 400 at the
  median (0.5 for the stress scenario, 50 percent for the aggregator) the stress scenario
  selects 300, at index 2, and the aggregator 200, at index 1.
\<close>

theorem percentile_conventions_differ:
  "(\<forall>xs p. stress_pick (sort xs) p
        = (if 0 \<le> \<lfloor>of_nat (length xs) * p\<rfloor> \<and> \<lfloor>of_nat (length xs) * p\<rfloor> < int (length xs)
           then sort xs ! nat \<lfloor>of_nat (length xs) * p\<rfloor> else 0))
   \<and> (\<forall>xs p. xs \<noteq> [] \<longrightarrow>
        percentile xs (100 * p)
          = Some (sort xs ! nat (min (int (length xs) - 1)
                                     (max 0 (\<lceil>of_nat (length xs) * p\<rceil> - 1)))))
   \<and> (\<exists>xs p y. xs \<noteq> [] \<and> sorted xs \<and> 0 < p \<and> p < 1
        \<and> percentile xs (100 * p) = Some y \<and> y \<noteq> stress_pick (sort xs) p)"
proof (intro conjI allI impI)
  fix xs :: "int list" and p :: rat
  show "stress_pick (sort xs) p
        = (if 0 \<le> \<lfloor>of_nat (length xs) * p\<rfloor> \<and> \<lfloor>of_nat (length xs) * p\<rfloor> < int (length xs)
           then sort xs ! nat \<lfloor>of_nat (length xs) * p\<rfloor> else 0)"
    by (simp add: stress_pick_def stress_index_def index_or_zero_def)
next
  fix xs :: "int list" and p :: rat
  assume "xs \<noteq> []"
  then show "percentile xs (100 * p)
          = Some (sort xs ! nat (min (int (length xs) - 1)
                                     (max 0 (\<lceil>of_nat (length xs) * p\<rceil> - 1))))"
    by (simp add: percentile_def percentile_index_def Let_def mult.commute)
next
  let ?xs = "[100, 200, 300, 400] :: int list"
  let ?p = "1 / 2 :: rat"
  have sel: "stress_pick (sort ?xs) ?p = 300" "percentile ?xs (100 * ?p) = Some 200"
    by code_simp+
  have "?xs \<noteq> [] \<and> sorted ?xs \<and> 0 < ?p \<and> ?p < 1
      \<and> percentile ?xs (100 * ?p) = Some 200 \<and> (200 :: int) \<noteq> stress_pick (sort ?xs) ?p"
    unfolding sel by simp
  then show "\<exists>xs p y. xs \<noteq> [] \<and> sorted xs \<and> 0 < p \<and> p < 1
        \<and> percentile xs (100 * p) = Some y \<and> y \<noteq> stress_pick (sort xs) p"
    by blast
qed

theorem percentile_conventions_differ_witness:
  "[100, 200, 300, 400 :: int] \<noteq> []
   \<and> percentile [100, 200, 300, 400] (100 * (1 / 2)) = Some 200
   \<and> stress_pick (sort [100, 200, 300, 400]) (1 / 2) = 300"
proof -
  let ?xs = "[100, 200, 300, 400] :: int list"
  have ne: "?xs \<noteq> []" by simp
  have i: "sort ?xs ! nat (min (int (length ?xs) - 1)
               (max 0 (\<lceil>of_nat (length ?xs) * (1 / 2 :: rat)\<rceil> - 1))) = 200"
    by code_simp
  have j: "(if 0 \<le> \<lfloor>of_nat (length ?xs) * (1 / 2 :: rat)\<rfloor>
               \<and> \<lfloor>of_nat (length ?xs) * (1 / 2 :: rat)\<rfloor> < int (length ?xs)
            then sort ?xs ! nat \<lfloor>of_nat (length ?xs) * (1 / 2 :: rat)\<rfloor> else 0) = 300"
    by code_simp
  from percentile_conventions_differ ne
  have "percentile ?xs (100 * (1 / 2)) = Some (sort ?xs ! nat (min (int (length ?xs) - 1)
               (max 0 (\<lceil>of_nat (length ?xs) * (1 / 2 :: rat)\<rceil> - 1))))"
    and "stress_pick (sort ?xs) (1 / 2) = (if 0 \<le> \<lfloor>of_nat (length ?xs) * (1 / 2 :: rat)\<rfloor>
               \<and> \<lfloor>of_nat (length ?xs) * (1 / 2 :: rat)\<rfloor> < int (length ?xs)
            then sort ?xs ! nat \<lfloor>of_nat (length ?xs) * (1 / 2 :: rat)\<rfloor> else 0)"
    by blast+
  then show ?thesis using ne unfolding i j by simp
qed

text \<open>
  C4, as the spec words it: on the durations 100, 200, 300, 400, 500 the median of the
  stress scenario would be the element at index \<open>floor (0.5 * 5) - 1 = 1\<close> of the sorted
  list, which is 200. The source has no \<open>- 1\<close>: it reads index 2, which is 300.
\<close>

theorem p50_fixed_vector_counterexample:
  "p50 (stress_summary [100, 200, 300, 400, 500]) \<noteq> sort [100, 200, 300, 400, 500] ! 1"
  by code_simp

text \<open>
  C4, amended: on the durations 100, 200, 300, 400, 500 the median of the stress scenario
  is the element at index \<open>floor (0.5 * 5) = 2\<close> of the sorted list, which is 300.
\<close>

theorem p50_fixed_vector:
  "stress_index 5 (1 / 2) = 2
   \<and> p50 (stress_summary [100, 200, 300, 400, 500]) = sort [100, 200, 300, 400, 500] ! 2
   \<and> p50 (stress_summary [100, 200, 300, 400, 500]) = 300"
  by code_simp

subsection \<open>The empty run\<close>

text \<open>
  C10. With no duration collected every percentile and the maximum read outside the
  list and fall back to 0, and each configured threshold assertion against a non-negative
  threshold passes: the assertions of a run over zero users all succeed.
\<close>

theorem empty_run_passes_thresholds:
  assumes "\<forall>a. maxAllowed = Some a \<longrightarrow> 0 \<le> a"
    and "\<forall>a. p95Allowed = Some a \<longrightarrow> 0 \<le> a"
    and "\<forall>a. p99Allowed = Some a \<longrightarrow> 0 \<le> a"
  shows "stress_summary [] = \<lparr>p50 = 0, p90 = 0, p95 = 0, p99 = 0, max_ms = 0\<rparr>
    \<and> \<not> exceeds (max_ms (stress_summary [])) maxAllowed
    \<and> \<not> exceeds (p95 (stress_summary [])) p95Allowed
    \<and> \<not> exceeds (p99 (stress_summary [])) p99Allowed
    \<and> stress_assertions 0 [] maxAllowed p95Allowed p99Allowed
        = Inr \<lparr>p50 = 0, p90 = 0, p95 = 0, p99 = 0, max_ms = 0\<rparr>"
proof -
  have s: "stress_summary [] = \<lparr>p50 = 0, p90 = 0, p95 = 0, p99 = 0, max_ms = 0\<rparr>"
    by (simp add: stress_summary_def stress_pick_def index_or_zero_def)
  have e: "\<not> exceeds 0 maxAllowed" "\<not> exceeds 0 p95Allowed" "\<not> exceeds 0 p99Allowed"
    using assms by (auto simp: exceeds_def split: option.splits)
  show ?thesis
    using e by (simp add: s stress_assertions_def)
qed

theorem empty_run_passes_thresholds_witness:
  "stress_summary [] = \<lparr>p50 = 0, p90 = 0, p95 = 0, p99 = 0, max_ms = 0\<rparr>
   \<and> stress_assertions 0 [] (Some 0) (Some 1500) None
        = Inr \<lparr>p50 = 0, p90 = 0, p95 = 0, p99 = 0, max_ms = 0\<rparr>"
  using empty_run_passes_thresholds [of "Some 0" "Some 1500" None] by simp

subsection \<open>Exactly-once dispatch of the worker pool\<close>

lemma sum_list_update:
  fixes f :: "'a \<Rightarrow> 'b::comm_monoid_add"
  shows "w < length xs \<Longrightarrow> sum_list (map f (xs[w := x])) + f (xs ! w) = sum_list (map f xs) + f x"
proof (induction xs arbitrary: w)
  case Nil
  then show ?case by simp
next
  case (Cons a xs)
  show ?case
  proof (cases w)
    case 0
    then show ?thesis by (simp add: ac_simps)
  next
    case (Suc k)
    with Cons.prems have "k < length xs" by simp
    from Cons.IH[OF this] show ?thesis using Suc by (simp add: ac_simps)
  qed
qed

lemma mset_outstanding_update:
  assumes "w < length (workers s)"
  shows "mset (concat (map held ((workers s)[w := x]))) + mset (held (workers s ! w))
       = mset (outstanding s) + mset (held x)"
  using sum_list_update[OF assms, of "\<lambda>w. mset (held w)" x]
  by (simp add: outstanding_def mset_concat comp_def)

lemma inv_init: "pool_inv n (nat (max 1 c)) (init_pool c)"
  by (simp add: pool_inv_def init_pool_def outstanding_def)

lemma upt_min_Suc: "k < n \<Longrightarrow> [0..<min (Suc k) n] = [0..<min k n] @ [k]"
  by (simp add: min_def)

lemma upt_min_ge: "n \<le> k \<Longrightarrow> [0..<min (Suc k) n] = [0..<min k n]"
  by (simp add: min_def)

lemma inv_claim:
  assumes inv: "pool_inv n c s" and w: "w < length (workers s)" and h: "held (workers s ! w) = []"
  shows "pool_inv n c (claim n w s)"
proof (cases "nxt s < n")
  case True
  have o: "mset (outstanding (claim n w s)) = mset (outstanding s) + {#nxt s#}"
    using mset_outstanding_update[OF w, of "Awaiting (nxt s)"] h True
    by (simp add: claim_def Let_def outstanding_def)
  have r: "Returned \<in> set ((workers s)[w := Awaiting (nxt s)]) \<Longrightarrow> Returned \<in> set (workers s)"
    by (metis (no_types, lifting) insertE set_update_subset_insert subsetD wstate.distinct(7))
  show ?thesis
    using inv True w o r
    by (auto simp: pool_inv_def claim_def Let_def upt_min_Suc)
next
  case False
  then have ge: "n \<le> nxt s" by simp
  have o: "mset (outstanding (claim n w s)) = mset (outstanding s)"
    using mset_outstanding_update[OF w, of Returned] h False
    by (simp add: claim_def Let_def outstanding_def)
  show ?thesis
    using inv ge w o
    by (auto simp: pool_inv_def claim_def Let_def upt_min_ge)
qed

lemma inv_step:
  assumes inv: "pool_inv n c s" and st: "step n e s = Some s'"
  shows "pool_inv n c s'"
proof (cases e)
  case (Start w)
  with st have w: "w < length (workers s)" and r: "workers s ! w = Ready" and s': "s' = claim n w s"
    by (auto split: if_splits)
  show ?thesis unfolding s' using inv_claim[OF inv w] r by simp
next
  case (Settle w d)
  with st obtain i where w: "w < length (workers s)" and a: "workers s ! w = Awaiting i"
    and s': "s' = claim n w (s\<lparr>timings := timings s @ [d], recorded := recorded s @ [i]\<rparr>)"
    by (auto split: if_splits wstate.splits)
  let ?m = "s\<lparr>workers := (workers s)[w := Ready], timings := timings s @ [d], recorded := recorded s @ [i]\<rparr>"
  have o: "mset (outstanding ?m) + {#i#} = mset (outstanding s)"
    using mset_outstanding_update[OF w, of Ready] a by (simp add: outstanding_def)
  have rr: "Returned \<in> set ((workers s)[w := Ready]) \<Longrightarrow> Returned \<in> set (workers s)"
    by (metis (no_types, lifting) insertE set_update_subset_insert subsetD wstate.distinct(3))
  have gen: "\<And>(R::nat multiset) A B U. A + {#i#} = B \<Longrightarrow> R + B = U \<Longrightarrow> add_mset i R + A = U"
    by auto
  have inv3: "mset (recorded s) + mset (outstanding s) = mset [0..<min (nxt s) n]"
    using inv by (simp only: pool_inv_def)
  have ms: "mset (recorded ?m) + mset (outstanding ?m) = mset [0..<min (nxt ?m) n]"
    using gen[OF o inv3] by simp
  have im: "pool_inv n c ?m"
    unfolding pool_inv_def
  proof (intro conjI)
    show "mset (recorded ?m) + mset (outstanding ?m) = mset [0..<min (nxt ?m) n]" by (rule ms)
  qed (use inv w rr in \<open>auto simp: pool_inv_def\<close>)
  have cl: "claim n w ?m = s'"
    unfolding s' by (simp add: claim_def Let_def)
  have "pool_inv n c (claim n w ?m)"
    by (rule inv_claim[OF im]) (use w in simp_all)
  then show ?thesis by (simp add: cl)
next
  case (Throw w)
  with st obtain i where w: "w < length (workers s)" and a: "workers s ! w = Awaiting i"
    and s': "s' = s\<lparr>workers := (workers s)[w := Rejected i]\<rparr>"
    by (auto split: if_splits wstate.splits)
  have o: "mset (outstanding s') = mset (outstanding s)"
    using mset_outstanding_update[OF w, of "Rejected i"] a by (simp add: s' outstanding_def)
  have rr: "Returned \<in> set ((workers s)[w := Rejected i]) \<Longrightarrow> Returned \<in> set (workers s)"
    by (metis (no_types, lifting) insertE set_update_subset_insert subsetD wstate.distinct(11))
  show ?thesis
    using inv w o rr by (auto simp: pool_inv_def s')
qed

lemma inv_exec:
  "pool_inv n c s \<Longrightarrow> exec n es s = Some s' \<Longrightarrow> pool_inv n c s'"
  by (induction es arbitrary: s) (auto split: option.splits dest: inv_step)


lemma started_settled_claim:
  assumes w: "w < length (workers s)"
  shows "sum_list (map started (workers (claim n w s))) + started (workers s ! w)
           = sum_list (map started (workers s)) + 1"
    and "sum_list (map settled (workers (claim n w s))) + settled (workers s ! w)
           = sum_list (map settled (workers s))"
    and "recorded (claim n w s) = recorded s"
  using sum_list_update[OF w, of started "Awaiting (nxt s)"]
        sum_list_update[OF w, of started Returned]
        sum_list_update[OF w, of settled "Awaiting (nxt s)"]
        sum_list_update[OF w, of settled Returned]
  by (simp_all add: claim_def Let_def)

lemma progress_step:
  assumes st: "step n e s = Some s'"
  shows "progress s' = Suc (progress s)"
proof (cases e)
  case (Start w)
  with st have w: "w < length (workers s)" and r: "workers s ! w = Ready" and s': "s' = claim n w s"
    by (auto split: if_splits)
  show ?thesis
    using started_settled_claim[OF w, of n] r
    by (simp add: progress_def s')
next
  case (Settle w d)
  with st obtain i where w: "w < length (workers s)" and a: "workers s ! w = Awaiting i"
    and s': "s' = claim n w (s\<lparr>timings := timings s @ [d], recorded := recorded s @ [i]\<rparr>)"
    by (auto split: if_splits wstate.splits)
  let ?m = "s\<lparr>timings := timings s @ [d], recorded := recorded s @ [i]\<rparr>"
  have w': "w < length (workers ?m)" using w by simp
  show ?thesis
    using started_settled_claim[OF w', of n] a
    by (simp add: progress_def s')
next
  case (Throw w)
  with st obtain i where w: "w < length (workers s)" and a: "workers s ! w = Awaiting i"
    and s': "s' = s\<lparr>workers := (workers s)[w := Rejected i]\<rparr>"
    by (auto split: if_splits wstate.splits)
  show ?thesis
    using sum_list_update[OF w, of started "Rejected i"] sum_list_update[OF w, of settled "Rejected i"] a
    by (simp add: progress_def s')
qed

lemma progress_exec:
  "exec n es s = Some s' \<Longrightarrow> progress s' = progress s + length es"
  by (induction es arbitrary: s) (auto split: option.splits dest: progress_step)

lemma progress_bound:
  assumes inv: "pool_inv n c s"
  shows "progress s \<le> n + c"
proof -
  have a: "sum_list (map started (workers s)) \<le> length (workers s)"
  proof -
    have "started w \<le> 1" for w by (cases w) simp_all
    then have "sum_list (map started (workers s)) \<le> sum_list (map (\<lambda>_. 1) (workers s))"
      by (intro sum_list_mono) simp
    then show ?thesis by (simp add: sum_list_triv)
  qed
  have b: "sum_list (map settled (workers s)) \<le> length (outstanding s)"
  proof -
    have "settled w \<le> length (held w)" for w
      by (cases w) simp_all
    then have "sum_list (map settled (workers s)) \<le> sum_list (map (\<lambda>w. length (held w)) (workers s))"
      by (intro sum_list_mono) simp
    then show ?thesis by (simp add: outstanding_def length_concat comp_def)
  qed
  have "size (mset (recorded s) + mset (outstanding s)) = size (mset [0..<min (nxt s) n])"
    using inv by (simp only: pool_inv_def)
  then have c: "length (recorded s) + length (outstanding s) \<le> n" by simp
  have d: "length (workers s) = c" using inv by (simp add: pool_inv_def)
  show ?thesis using a b c d by (simp add: progress_def)
qed

lemma progress_init: "progress (init_pool c) = 0"
  by (simp add: progress_def init_pool_def)

lemma no_deadlock:
  assumes "\<not> all_returned s" and "\<not> some_rejected s"
  shows "\<exists>e s'. step n e s = Some s'"
proof -
  from assms(1) obtain w where w: "w < length (workers s)" and nr: "workers s ! w \<noteq> Returned"
    by (auto simp: all_returned_def list_all_length)
  from assms(2) w have nj: "\<not> (\<exists>i. workers s ! w = Rejected i)"
    by (auto simp: some_rejected_def list_ex_length)
  show ?thesis
  proof (cases "workers s ! w")
    case Ready
    then have "step n (Start w) s = Some (claim n w s)" using w by simp
    then show ?thesis by blast
  next
    case (Awaiting i)
    then have "\<exists>s'. step n (Settle w 0) s = Some s'" using w by simp
    then show ?thesis by blast
  next
    case Returned
    with nr show ?thesis by simp
  next
    case (Rejected i)
    with nj show ?thesis by simp
  qed
qed

lemma all_returned_done:
  assumes inv: "pool_inv n c s" and c: "0 < c" and ar: "all_returned s"
  shows "length (timings s) = n" "map snd (claims s) = [0..<n]" "mset (recorded s) = mset [0..<n]"
proof -
  have ws: "\<forall>w \<in> set (workers s). w = Returned"
    using ar by (simp add: all_returned_def list_all_iff)
  have "length (workers s) = c" using inv by (simp add: pool_inv_def)
  with c have "workers s \<noteq> []" by auto
  then obtain w where "w \<in> set (workers s)" by (cases "workers s") auto
  with ws have "Returned \<in> set (workers s)" by auto
  with inv have ge: "n \<le> nxt s" by (simp add: pool_inv_def)
  have o: "outstanding s = []"
    using ws by (auto simp: outstanding_def)
  from inv ge show "map snd (claims s) = [0..<n]" by (simp add: pool_inv_def min_def)
  from inv ge o show m: "mset (recorded s) = mset [0..<n]" by (simp add: pool_inv_def min_def)
  have "size (mset (recorded s)) = size (mset [0..<n])" by (simp only: m)
  then show "length (timings s) = n" using inv by (simp add: pool_inv_def)
qed

lemma claims_unique:
  assumes inv: "pool_inv n c s"
  shows "distinct (map snd (claims s))" "set (map snd (claims s)) \<subseteq> {..<n}"
  using inv by (auto simp: pool_inv_def)

text \<open>
  C1. For every number of users and every concurrency setting, whatever order the
  environment runs the workers' blocks in: no index is ever handed out twice and none
  outside the list; a run has at most as many events as users plus workers, and while
  some worker has not returned and none has failed, some worker can run, so that every run
  free of failed logins ends with all workers returned; and once all workers have returned,
  exactly as many durations as users are recorded, the indices handed out are exactly
  0, 1, ..., n - 1, each to exactly one worker, and each has its duration recorded once.
\<close>

theorem worker_pool_exactly_once:
  assumes run: "exec n sched (init_pool concurrency) = Some s"
  shows "distinct (map snd (claims s))
    \<and> set (map snd (claims s)) \<subseteq> {..<n}
    \<and> length sched \<le> n + nat (max 1 concurrency)
    \<and> (\<not> all_returned s \<and> \<not> some_rejected s \<longrightarrow> (\<exists>e s'. step n e s = Some s'))
    \<and> (all_returned s \<longrightarrow>
          length (timings s) = n
        \<and> map snd (claims s) = [0..<n]
        \<and> mset (recorded s) = mset [0..<n]
        \<and> (\<forall>i<n. \<exists>!w. (w, i) \<in> set (claims s)))"
proof -
  let ?c = "nat (max 1 concurrency)"
  have inv: "pool_inv n ?c s"
    using inv_exec[OF inv_init run] .
  have c: "0 < ?c" by simp
  have len: "length sched \<le> n + ?c"
    using progress_exec[OF run] progress_bound[OF inv] by (simp add: progress_init)
  have uniq: "\<forall>i<n. \<exists>!w. (w, i) \<in> set (claims s)" if ar: "all_returned s"
  proof (intro allI impI)
    fix i assume i: "i < n"
    have m: "map snd (claims s) = [0..<n]" using all_returned_done(2)[OF inv c ar] .
    then have "i \<in> set (map snd (claims s))" using i by simp
    then obtain w where w: "(w, i) \<in> set (claims s)" by auto
    have inj: "inj_on snd (set (claims s))"
      using claims_unique(1)[OF inv] by (simp add: distinct_map)
    show "\<exists>!w. (w, i) \<in> set (claims s)"
    proof (rule ex1I[of _ w])
      show "(w, i) \<in> set (claims s)" by (rule w)
    next
      fix w' assume "(w', i) \<in> set (claims s)"
      then show "w' = w" using inj_onD[OF inj, of "(w', i)" "(w, i)"] w by simp
    qed
  qed
  show ?thesis
    using claims_unique[OF inv] len no_deadlock[of s n] all_returned_done[OF inv c] uniq
    by blast
qed

theorem worker_pool_exactly_once_witness:
  "exec 3 [Start 0, Start 1, Settle 1 120, Settle 0 250, Settle 1 90] (init_pool 2)
     = Some \<lparr>nxt = 5, timings = [120, 250, 90], workers = [Returned, Returned],
             claims = [(0, 0), (1, 1), (1, 2)], recorded = [1, 0, 2]\<rparr>
   \<and> all_returned \<lparr>nxt = 5, timings = [120, 250, 90], workers = [Returned, Returned],
             claims = [(0, 0), (1, 1), (1, 2)], recorded = [1, 0, 2]\<rparr>
   \<and> length [120, 250, 90 :: int] = 3
   \<and> map snd [(0, 0), (1, 1), (1, 2 :: nat)] = [0..<3]"
proof -
  let ?s = "\<lparr>nxt = 5, timings = [120, 250, 90], workers = [Returned, Returned],
             claims = [(0, 0), (1, 1), (1, 2)], recorded = [1, 0, 2]\<rparr>"
  have run: "exec 3 [Start 0, Start 1, Settle 1 120, Settle 0 250, Settle 1 90] (init_pool 2) = Some ?s"
    by code_simp
  have ar: "all_returned ?s" by (simp add: all_returned_def)
  from worker_pool_exactly_once[OF run] ar
  have "length (timings ?s) = 3 \<and> map snd (claims ?s) = [0..<3]" by blast
  with run ar show ?thesis by simp
qed

subsection \<open>Credential resolution\<close>

lemma slice0_nonneg: "0 \<le> e \<Longrightarrow> slice0 xs e = take (nat e) xs"
  by (simp add: slice0_def)

text \<open>
  A negative count is outside the contract: \<^verbatim>\<open>slice(0, -1)\<close> drops the last name instead of
  taking none.
\<close>

lemma requireMystappUsers_negative_count:
  "requireMystappUsers [''MYSTAPP_USERS'' \<mapsto> ''a,b,c'', ''MYSTAPP_PASSWORD'' \<mapsto> ''pw''] None (- 1)
     = Inr [\<lparr>username = ''a'', password = ''pw''\<rparr>, \<lparr>username = ''b'', password = ''pw''\<rparr>]"
  by code_simp

text \<open>
  C2. For a count that is not negative, \<^verbatim>\<open>requireMystappUsers\<close> consults one source, in a
  fixed order. With a non-empty explicit list and the shared password it returns the first
  count names in order, each with the password, and fails when the list is shorter than the
  count. Otherwise, with a single user and the password, it returns that one credential for
  count 1, and for any other count fails unless \<^verbatim>\<open>MYSTAPP_REUSE_SINGLE_USER\<close> is 1, in which
  case it returns count copies of the credential. Otherwise, with a prefix and the password,
  it returns count credentials named by the prefix and the 1-based index padded to two
  digits. Without the password, or without any of the three sources, it fails. Whenever it
  succeeds it returns exactly count credentials, all carrying the configured password.
\<close>

theorem requireMystappUsers_contract:
  assumes nonneg: "0 \<le> cnt"
  shows "(explicitUsernames env local \<noteq> [] \<and> cfg_password env local = Some pw \<longrightarrow>
            requireMystappUsers env local cnt =
              (if int (length (explicitUsernames env local)) < cnt
               then Inl (UserListTooShort (length (explicitUsernames env local)) cnt)
               else Inr (map (\<lambda>u. \<lparr>username = u, password = pw\<rparr>)
                          (take (nat cnt) (explicitUsernames env local)))))
    \<and> (explicitUsernames env local = [] \<and> cfg_singleUser env local = Some u
          \<and> cfg_password env local = Some pw \<longrightarrow>
            requireMystappUsers env local cnt =
              (if cnt = 1 then Inr [\<lparr>username = u, password = pw\<rparr>]
               else if reuseSingleUser env
                 then Inr (replicate (nat cnt) \<lparr>username = u, password = pw\<rparr>)
               else Inl (SingleUserNotReusable u cnt)))
    \<and> (explicitUsernames env local = [] \<and> cfg_singleUser env local = None
          \<and> cfg_userPrefix env local = Some pre \<and> cfg_password env local = Some pw \<longrightarrow>
            requireMystappUsers env local cnt =
              Inr (map (\<lambda>i. \<lparr>username = pre @ padStart 2 CHR ''0'' (string_of_nat (i + 1)),
                              password = pw\<rparr>) [0..<nat cnt]))
    \<and> (cfg_password env local = None
          \<or> (explicitUsernames env local = [] \<and> cfg_singleUser env local = None
              \<and> cfg_userPrefix env local = None) \<longrightarrow>
            (\<exists>e. requireMystappUsers env local cnt = Inl e))
    \<and> (\<forall>us. requireMystappUsers env local cnt = Inr us \<longrightarrow>
            length us = nat cnt \<and> (\<forall>c \<in> set us. cfg_password env local = Some (password c)))"
proof (intro conjI impI allI)
  assume "explicitUsernames env local \<noteq> [] \<and> cfg_password env local = Some pw"
  then show "requireMystappUsers env local cnt =
              (if int (length (explicitUsernames env local)) < cnt
               then Inl (UserListTooShort (length (explicitUsernames env local)) cnt)
               else Inr (map (\<lambda>u. \<lparr>username = u, password = pw\<rparr>)
                          (take (nat cnt) (explicitUsernames env local))))"
    using nonneg by (simp add: requireMystappUsers_def slice0_nonneg)
next
  assume "explicitUsernames env local = [] \<and> cfg_singleUser env local = Some u
          \<and> cfg_password env local = Some pw"
  then show "requireMystappUsers env local cnt =
              (if cnt = 1 then Inr [\<lparr>username = u, password = pw\<rparr>]
               else if reuseSingleUser env
                 then Inr (replicate (nat cnt) \<lparr>username = u, password = pw\<rparr>)
               else Inl (SingleUserNotReusable u cnt))"
    by (simp add: requireMystappUsers_def array_from_def map_replicate_const)
next
  assume "explicitUsernames env local = [] \<and> cfg_singleUser env local = None
          \<and> cfg_userPrefix env local = Some pre \<and> cfg_password env local = Some pw"
  then show "requireMystappUsers env local cnt =
              Inr (map (\<lambda>i. \<lparr>username = pre @ padStart 2 CHR ''0'' (string_of_nat (i + 1)),
                              password = pw\<rparr>) [0..<nat cnt])"
    by (simp add: requireMystappUsers_def array_from_def generated_username_def del: string_of_nat.simps)
next
  assume "cfg_password env local = None
          \<or> (explicitUsernames env local = [] \<and> cfg_singleUser env local = None
              \<and> cfg_userPrefix env local = None)"
  then show "\<exists>e. requireMystappUsers env local cnt = Inl e"
    by (auto simp: requireMystappUsers_def Let_def split: option.splits)
next
  fix us assume r: "requireMystappUsers env local cnt = Inr us"
  then show "length us = nat cnt"
    using nonneg
    by (auto simp: requireMystappUsers_def Let_def array_from_def slice0_nonneg
             split: option.splits if_splits)
next
  fix us assume r: "requireMystappUsers env local cnt = Inr us"
  then show "\<forall>c \<in> set us. cfg_password env local = Some (password c)"
    by (auto simp: requireMystappUsers_def Let_def array_from_def slice0_def
             split: option.splits if_splits dest: in_set_takeD)
qed

theorem requireMystappUsers_contract_witness:
  "requireMystappUsers [''MYSTAPP_USERS'' \<mapsto> ''a,b,c'', ''MYSTAPP_PASSWORD'' \<mapsto> ''pw''] None 2
     = Inr [\<lparr>username = ''a'', password = ''pw''\<rparr>, \<lparr>username = ''b'', password = ''pw''\<rparr>]
   \<and> requireMystappUsers [''MYSTAPP_USERS'' \<mapsto> ''a,b,c'', ''MYSTAPP_PASSWORD'' \<mapsto> ''pw''] None 4
     = Inl (UserListTooShort 3 4)
   \<and> requireMystappUsers [''MYSTAPP_USER'' \<mapsto> ''solo'', ''MYSTAPP_PASSWORD'' \<mapsto> ''pw''] None 3
     = Inl (SingleUserNotReusable ''solo'' 3)
   \<and> requireMystappUsers [''MYSTAPP_USER'' \<mapsto> ''solo'', ''MYSTAPP_PASSWORD'' \<mapsto> ''pw'',
                           ''MYSTAPP_REUSE_SINGLE_USER'' \<mapsto> ''1''] None 3
     = Inr (replicate 3 \<lparr>username = ''solo'', password = ''pw''\<rparr>)
   \<and> requireMystappUsers [''MYSTAPP_USER_PREFIX'' \<mapsto> ''user'', ''MYSTAPP_PASSWORD'' \<mapsto> ''pw''] None 2
     = Inr [\<lparr>username = ''user01'', password = ''pw''\<rparr>, \<lparr>username = ''user02'', password = ''pw''\<rparr>]
   \<and> (\<exists>e. requireMystappUsers [''MYSTAPP_USER_PREFIX'' \<mapsto> ''user''] None 2 = Inl e)"
proof -
  let ?list = "[''MYSTAPP_USERS'' \<mapsto> ''a,b,c'', ''MYSTAPP_PASSWORD'' \<mapsto> ''pw'']"
  let ?solo = "[''MYSTAPP_USER'' \<mapsto> ''solo'', ''MYSTAPP_PASSWORD'' \<mapsto> ''pw'']"
  let ?reuse = "[''MYSTAPP_USER'' \<mapsto> ''solo'', ''MYSTAPP_PASSWORD'' \<mapsto> ''pw'',
                 ''MYSTAPP_REUSE_SINGLE_USER'' \<mapsto> ''1'']"
  let ?gen = "[''MYSTAPP_USER_PREFIX'' \<mapsto> ''user'', ''MYSTAPP_PASSWORD'' \<mapsto> ''pw'']"
  let ?nopw = "[''MYSTAPP_USER_PREFIX'' \<mapsto> ''user'']"
  have l: "explicitUsernames ?list None = [''a'', ''b'', ''c'']" "cfg_password ?list None = Some ''pw''"
    by code_simp+
  have s: "explicitUsernames ?solo None = []" "cfg_singleUser ?solo None = Some ''solo''"
    "cfg_password ?solo None = Some ''pw''" "\<not> reuseSingleUser ?solo"
    by code_simp+
  have r: "explicitUsernames ?reuse None = []" "cfg_singleUser ?reuse None = Some ''solo''"
    "cfg_password ?reuse None = Some ''pw''" "reuseSingleUser ?reuse"
    by code_simp+
  have g: "explicitUsernames ?gen None = []" "cfg_singleUser ?gen None = None"
    "cfg_userPrefix ?gen None = Some ''user''" "cfg_password ?gen None = Some ''pw''"
    by code_simp+
  have n: "cfg_password ?nopw None = None"
    by code_simp
  have pad: "padStart 2 CHR ''0'' (string_of_nat (Suc 0)) = ''01''"
    "padStart 2 CHR ''0'' (string_of_nat (Suc (Suc 0))) = ''02''"
    by code_simp+
  have two: "[0..<nat 2] = [0, 1]" by code_simp
  have a2: "requireMystappUsers ?list None 2
     = Inr [\<lparr>username = ''a'', password = ''pw''\<rparr>, \<lparr>username = ''b'', password = ''pw''\<rparr>]"
    using requireMystappUsers_contract [where cnt = 2 and env = ?list and local = None and pw = "''pw''"] l by simp
  have a4: "requireMystappUsers ?list None 4 = Inl (UserListTooShort 3 4)"
    using requireMystappUsers_contract [where cnt = 4 and env = ?list and local = None and pw = "''pw''"] l by simp
  have b3: "requireMystappUsers ?solo None 3 = Inl (SingleUserNotReusable ''solo'' 3)"
    using requireMystappUsers_contract [where cnt = 3 and env = ?solo and local = None and u = "''solo''" and pw = "''pw''"] s by simp
  have b3r: "requireMystappUsers ?reuse None 3 = Inr (replicate 3 \<lparr>username = ''solo'', password = ''pw''\<rparr>)"
    using requireMystappUsers_contract [where cnt = 3 and env = ?reuse and local = None and u = "''solo''" and pw = "''pw''"] r by simp
  have c2: "requireMystappUsers ?gen None 2
     = Inr [\<lparr>username = ''user01'', password = ''pw''\<rparr>, \<lparr>username = ''user02'', password = ''pw''\<rparr>]"
    using requireMystappUsers_contract [where cnt = 2 and env = ?gen and local = None and pre = "''user''" and pw = "''pw''"] g pad two
    by (simp del: string_of_nat.simps)
  have d: "\<exists>e. requireMystappUsers ?nopw None 2 = Inl e"
    using requireMystappUsers_contract [where cnt = 2 and env = ?nopw and local = None] n by simp
  show ?thesis using a2 a4 b3 b3r c2 d by blast
qed

subsection \<open>Date conversion\<close>

lemma attempts_succeed_readback:
  "attempts_succeed v as \<Longrightarrow> \<exists>r. ReadBack r \<in> set as \<and> trim r = v"
proof (induction as)
  case Nil
  then show ?case by simp
next
  case (Cons a as)
  then show ?case by (cases a) auto
qed

lemma digit_plain: "c \<in> set ''0123456789'' \<Longrightarrow> \<not> is_space c \<and> c \<noteq> CHR ''/''"
  by (auto simp: is_space_def)

lemma trim_plain_ends:
  assumes "s \<noteq> []" and "\<not> is_space (hd s)" and "\<not> is_space (last s)"
  shows "trim s = s"
proof -
  have front: "dropWhile is_space s = s"
    using assms(1,2) by (cases s) simp_all
  have "rev s \<noteq> []" and "\<not> is_space (hd (rev s))"
    using assms(1,3) by (simp_all add: hd_rev)
  then have "dropWhile is_space (rev s) = rev s"
    by (cases "rev s") simp_all
  with front show ?thesis by (simp add: trim_def)
qed

lemma trim_digits:
  assumes "s \<noteq> []" and "set s \<subseteq> set ''0123456789''"
  shows "trim s = s"
proof (rule trim_plain_ends[OF assms(1)])
  have "hd s \<in> set s" "last s \<in> set s" using assms(1) by simp_all
  with assms(2) have "hd s \<in> set ''0123456789''" "last s \<in> set ''0123456789''" by blast+
  then show "\<not> is_space (hd s)" "\<not> is_space (last s)" using digit_plain by blast+
qed

lemma split_on_no_sep: "sep \<notin> set s \<Longrightarrow> split_on sep s = [s]"
  by (induction s) auto

lemma split_on_first: "sep \<notin> set a \<Longrightarrow> split_on sep (a @ sep # rest) = a # split_on sep rest"
  by (induction a) auto

lemma digits_between_plain:
  assumes "lo \<le> length s" and "length s \<le> hi" and "set s \<subseteq> set ''0123456789''"
  shows "digits_between lo hi s"
proof -
  have "\<forall>x \<in> set s. is_digit x"
    unfolding is_digit_def using assms(3) by (rule subsetD[THEN ballI])
  then show ?thesis
    using assms(1,2) by (simp only: digits_between_def list_all_iff simp_thms)
qed

lemma no_slash_in_digits: "set s \<subseteq> set ''0123456789'' \<Longrightarrow> CHR ''/'' \<notin> set s"
proof
  assume sub: "set s \<subseteq> set ''0123456789''" and "CHR ''/'' \<in> set s"
  then have "CHR ''/'' \<in> set ''0123456789''" by (rule subsetD)
  then show False by simp
qed

lemma toIsoDate_digits:
  assumes a: "length a \<in> {1, 2}" "set a \<subseteq> set ''0123456789''"
    and b: "length b \<in> {1, 2}" "set b \<subseteq> set ''0123456789''"
    and c: "length c = 4" "set c \<subseteq> set ''0123456789''"
  shows "toIsoDate (a @ ''/'' @ b @ ''/'' @ c) format =
           Inr (c @ ''-''
                @ (if format = DD_MM_YYYY then padStart 2 CHR ''0'' b else padStart 2 CHR ''0'' a)
                @ ''-''
                @ (if format = DD_MM_YYYY then padStart 2 CHR ''0'' a else padStart 2 CHR ''0'' b))"
proof -
  let ?raw = "a @ ''/'' @ b @ ''/'' @ c"
  have la: "1 \<le> length a" "length a \<le> 2" using a(1) by auto
  have lb: "1 \<le> length b" "length b \<le> 2" using b(1) by auto
  have lc: "4 \<le> length c" "length c \<le> 4" using c(1) by auto
  have ne: "a \<noteq> []" "b \<noteq> []" "c \<noteq> []" using la(1) lb(1) lc(1) by auto
  have nosep: "CHR ''/'' \<notin> set a" "CHR ''/'' \<notin> set b" "CHR ''/'' \<notin> set c"
    by (rule no_slash_in_digits, fact)+
  have ends: "hd ?raw = hd a" "last ?raw = last c" using ne by simp_all
  have "hd a \<in> set a" "last c \<in> set c" using ne by simp_all
  then have "hd a \<in> set ''0123456789''" "last c \<in> set ''0123456789''"
    using a(2) c(2) by (blast dest: subsetD)+
  then have "\<not> is_space (hd a)" "\<not> is_space (last c)"
    by (blast dest: digit_plain)+
  then have "\<not> is_space (hd ?raw)" "\<not> is_space (last ?raw)"
    by (simp_all only: ends simp_thms)
  moreover have "?raw \<noteq> []" using ne by simp
  ultimately have t: "trim ?raw = ?raw" by (intro trim_plain_ends)
  have sp: "split_on CHR ''/'' ?raw = [a, b, c]"
    using split_on_first[OF nosep(1), of "b @ ''/'' @ c"] split_on_first[OF nosep(2), of c]
      split_on_no_sep[OF nosep(3)]
    by simp
  have tr: "trim a = a" "trim b = b" "trim c = c"
    by (rule trim_digits, fact, fact)+
  have dg: "digits_between 1 2 a" "digits_between 1 2 b" "digits_between 4 4 c"
    by (rule digits_between_plain, fact, fact, fact)+
  show ?thesis
    unfolding toIsoDate_def t sp using tr dg by (simp add: Let_def)
qed

text \<open>
  C6. The value the date filler expects to read back is the ISO conversion of the raw
  string when the input's type is \<^verbatim>\<open>date\<close> and the raw string in every other case. The
  conversion of day, month (one or two digits each) and year (four digits), written with
  slashes in the order of the format, is year, month, day joined by dashes, day and month
  padded with a zero to two digits; so the raw string 02/01/2025 converts to 2025-02-01
  under MM/DD/YYYY and to 2025-01-02 under DD/MM/YYYY. When the filler succeeds, one of its
  attempts read back, up to surrounding white space, exactly the expected value.
\<close>

theorem date_conversion:
  "expected_value inputType format rawDate
      = (if inputType = Some ''date'' then toIsoDate rawDate format else Inr rawDate)
   \<and> (length a \<in> {1, 2} \<and> set a \<subseteq> set ''0123456789''
      \<and> length b \<in> {1, 2} \<and> set b \<subseteq> set ''0123456789''
      \<and> length c = 4 \<and> set c \<subseteq> set ''0123456789'' \<longrightarrow>
        toIsoDate (a @ ''/'' @ b @ ''/'' @ c) MM_DD_YYYY
          = Inr (c @ ''-'' @ (if length a = 1 then CHR ''0'' # a else a)
                   @ ''-'' @ (if length b = 1 then CHR ''0'' # b else b))
      \<and> toIsoDate (a @ ''/'' @ b @ ''/'' @ c) DD_MM_YYYY
          = Inr (c @ ''-'' @ (if length b = 1 then CHR ''0'' # b else b)
                   @ ''-'' @ (if length a = 1 then CHR ''0'' # a else a)))
   \<and> toIsoDate ''02/01/2025'' MM_DD_YYYY = Inr ''2025-02-01''
   \<and> toIsoDate ''02/01/2025'' DD_MM_YYYY = Inr ''2025-01-02''
   \<and> expected_value (Some ''date'') MM_DD_YYYY ''02/01/2025'' = Inr ''2025-02-01''
   \<and> expected_value (Some ''date'') DD_MM_YYYY ''02/01/2025'' = Inr ''2025-01-02''
   \<and> expected_value (Some ''text'') DD_MM_YYYY ''02/01/2025'' = Inr ''02/01/2025''
   \<and> expected_value None MM_DD_YYYY ''02/01/2025'' = Inr ''02/01/2025''
   \<and> (fillDateInput env inputType rawDate fill keyboard js = Inr () \<longrightarrow>
        (\<exists>v r. expected_value inputType (mystappDateFormat env) rawDate = Inr v
               \<and> ReadBack r \<in> set [fill, keyboard, js] \<and> trim r = v))"
proof -
  have mm: "toIsoDate ''02/01/2025'' MM_DD_YYYY = Inr ''2025-02-01''" by code_simp
  have dd: "toIsoDate ''02/01/2025'' DD_MM_YYYY = Inr ''2025-01-02''" by code_simp
  have pad: "padStart 2 CHR ''0'' s = (if length s = 1 then CHR ''0'' # s else s)"
    if "length s \<in> {1, 2}" for s
    using that by (auto simp: padStart_def)
  have gen: "toIsoDate (a @ ''/'' @ b @ ''/'' @ c) MM_DD_YYYY
          = Inr (c @ ''-'' @ (if length a = 1 then CHR ''0'' # a else a)
                   @ ''-'' @ (if length b = 1 then CHR ''0'' # b else b))
      \<and> toIsoDate (a @ ''/'' @ b @ ''/'' @ c) DD_MM_YYYY
          = Inr (c @ ''-'' @ (if length b = 1 then CHR ''0'' # b else b)
                   @ ''-'' @ (if length a = 1 then CHR ''0'' # a else a))"
    if h: "length a \<in> {1, 2} \<and> set a \<subseteq> set ''0123456789''
      \<and> length b \<in> {1, 2} \<and> set b \<subseteq> set ''0123456789''
      \<and> length c = 4 \<and> set c \<subseteq> set ''0123456789''"
  proof -
    from h have a: "length a \<in> {1, 2}" "set a \<subseteq> set ''0123456789''"
      and b: "length b \<in> {1, 2}" "set b \<subseteq> set ''0123456789''"
      and c: "length c = 4" "set c \<subseteq> set ''0123456789''"
      by blast+
    show ?thesis
      using toIsoDate_digits[OF a b c, of MM_DD_YYYY] toIsoDate_digits[OF a b c, of DD_MM_YYYY]
        pad[OF a(1)] pad[OF b(1)]
      by simp
  qed
  have fill: "\<exists>v r. expected_value inputType (mystappDateFormat env) rawDate = Inr v
               \<and> ReadBack r \<in> set [fill, keyboard, js] \<and> trim r = v"
    if ok: "fillDateInput env inputType rawDate fill keyboard js = Inr ()"
  proof (cases "expected_value inputType (mystappDateFormat env) rawDate")
    case (Inl e)
    with ok show ?thesis by (simp add: fillDateInput_def)
  next
    case (Inr v)
    with ok have "attempts_succeed v [fill, keyboard, js]"
      by (simp add: fillDateInput_def split: if_splits)
    from attempts_succeed_readback[OF this] Inr show ?thesis by blast
  qed
  have ev: "expected_value inputType format rawDate
      = (if inputType = Some ''date'' then toIsoDate rawDate format else Inr rawDate)"
    "expected_value (Some ''date'') MM_DD_YYYY ''02/01/2025'' = Inr ''2025-02-01''"
    "expected_value (Some ''date'') DD_MM_YYYY ''02/01/2025'' = Inr ''2025-01-02''"
    "expected_value (Some ''text'') DD_MM_YYYY ''02/01/2025'' = Inr ''02/01/2025''"
    "expected_value None MM_DD_YYYY ''02/01/2025'' = Inr ''02/01/2025''"
    using mm dd by (simp_all add: expected_value_def)
  show ?thesis
    using mm dd gen fill ev by blast
qed

theorem date_conversion_witness:
  "toIsoDate (''2'' @ ''/'' @ ''11'' @ ''/'' @ ''2025'') MM_DD_YYYY = Inr ''2025-02-11''
   \<and> toIsoDate (''2'' @ ''/'' @ ''11'' @ ''/'' @ ''2025'') DD_MM_YYYY = Inr ''2025-11-02''
   \<and> fillDateInput [''MYSTAPP_DATE_FORMAT'' \<mapsto> ''dd/mm/yyyy''] (Some ''date'') ''02/01/2025''
      Threw (ReadBack ''2025-01-02 '') (ReadBack ''unused'') = Inr ()
   \<and> expected_value (Some ''date'')
        (mystappDateFormat [''MYSTAPP_DATE_FORMAT'' \<mapsto> ''dd/mm/yyyy'']) ''02/01/2025''
      = Inr ''2025-01-02''
   \<and> trim ''2025-01-02 '' = ''2025-01-02''"
proof -
  let ?env = "[''MYSTAPP_DATE_FORMAT'' \<mapsto> ''dd/mm/yyyy'']"
  have ok: "fillDateInput ?env (Some ''date'') ''02/01/2025''
      Threw (ReadBack ''2025-01-02 '') (ReadBack ''unused'') = Inr ()"
    by code_simp
  have t: "trim ''2025-01-02 '' = ''2025-01-02''" by code_simp
  have f: "mystappDateFormat ?env = DD_MM_YYYY" by code_simp
  note inst = date_conversion [of "Some ''date''" "mystappDateFormat ?env" "''02/01/2025''"
      "''2''" "''11''" "''2025''" ?env Threw "ReadBack ''2025-01-02 ''" "ReadBack ''unused''"]
  have h: "length ''2'' \<in> {1, 2 :: nat} \<and> set ''2'' \<subseteq> set ''0123456789''
      \<and> length ''11'' \<in> {1, 2 :: nat} \<and> set ''11'' \<subseteq> set ''0123456789''
      \<and> length ''2025'' = 4 \<and> set ''2025'' \<subseteq> set ''0123456789''"
    by simp
  from inst h have g: "toIsoDate (''2'' @ ''/'' @ ''11'' @ ''/'' @ ''2025'') MM_DD_YYYY
          = Inr (''2025'' @ ''-'' @ (if length ''2'' = 1 then CHR ''0'' # ''2'' else ''2'')
                   @ ''-'' @ (if length ''11'' = 1 then CHR ''0'' # ''11'' else ''11''))"
    "toIsoDate (''2'' @ ''/'' @ ''11'' @ ''/'' @ ''2025'') DD_MM_YYYY
          = Inr (''2025'' @ ''-'' @ (if length ''11'' = 1 then CHR ''0'' # ''11'' else ''11'')
                   @ ''-'' @ (if length ''2'' = 1 then CHR ''0'' # ''2'' else ''2''))"
    by blast+
  from inst have e: "expected_value (Some ''date'') (mystappDateFormat ?env) ''02/01/2025''
      = toIsoDate ''02/01/2025'' (mystappDateFormat ?env)"
    by simp
  from inst have dd: "toIsoDate ''02/01/2025'' DD_MM_YYYY = Inr ''2025-01-02''" by blast
  show ?thesis
    using g ok t e dd f by simp
qed

subsection \<open>Header redaction\<close>

lemma update_fresh: "k \<notin> fst ` set acc \<Longrightarrow> AList.update k v acc = acc @ [(k, v)]"
  by (induction acc) auto

lemma fold_redact:
  assumes "distinct (map fst hs)" and "fst ` set hs \<inter> fst ` set acc = {}"
  shows "fold (\<lambda>(k, v) out. let key = toLowerCase k
                      in if key \<in> set blocked then out
                         else if k = ''__proto__'' then out
                         else AList.update k v out) hs acc
         = acc @ filter keep_header hs"
  using assms
proof (induction hs arbitrary: acc)
  case Nil
  then show ?case by simp
next
  case (Cons h hs)
  obtain k v where h: "h = (k, v)" by (cases h)
  show ?case
  proof (cases "toLowerCase k \<in> set blocked \<or> k = ''__proto__''")
    case True
    have "fst ` set hs \<inter> fst ` set acc = {}" using Cons.prems by auto
    with Cons.IH[of acc] Cons.prems True h show ?thesis by (auto simp: keep_header_def)
  next
    case False
    have fresh: "k \<notin> fst ` set acc" using Cons.prems h by auto
    have d: "fst ` set hs \<inter> fst ` set (acc @ [(k, v)]) = {}"
      using Cons.prems h by auto
    have "distinct (map fst hs)" using Cons.prems by simp
    from Cons.IH[OF this d] False h fresh show ?thesis
      by (simp add: keep_header_def update_fresh)
  qed
qed

lemma redactHeaders_filter:
  "distinct (map fst hs) \<Longrightarrow> redactHeaders hs = filter keep_header hs"
  using fold_redact[of hs "[]"] by (simp add: redactHeaders_def)

lemma map_of_filter_keep:
  "map_of (filter keep_header hs) k
     = (if toLowerCase k \<in> set blocked \<or> k = ''__proto__'' then None else map_of hs k)"
  by (induction hs) (auto simp: keep_header_def)

text \<open>
  A header whose name is literally \<^verbatim>\<open>__proto__\<close> is lost on the way: the assignment stores
  nothing. The statement for C7 below says nothing about that name.
\<close>

lemma redactHeaders_proto_name:
  "redactHeaders [(''__proto__'', ''p''), (''accept'', ''x'')] = [(''accept'', ''x'')]"
  by code_simp

text \<open>
  C7, amended: for every header object, the redacted copy has no entry whose name, letter
  case ignored, is authorization, cookie, set-cookie, proxy-authorization or x-api-key, and
  it keeps every other entry, name and value unchanged and in order; nothing is said about
  an entry whose name is \<^verbatim>\<open>__proto__\<close>. The name api-key is not in the blocked set.
\<close>

theorem redactHeaders_blocked_names:
  assumes "distinct (map fst hs)"
  shows "(\<forall>k v. (k, v) \<in> set (redactHeaders hs) \<longrightarrow>
            toLowerCase k \<notin> {''authorization'', ''cookie'', ''set-cookie'',
                               ''proxy-authorization'', ''x-api-key''})
    \<and> (\<forall>k. toLowerCase k \<notin> {''authorization'', ''cookie'', ''set-cookie'',
                               ''proxy-authorization'', ''x-api-key''} \<and> k \<noteq> ''__proto__''
           \<longrightarrow> map_of (redactHeaders hs) k = map_of hs k)
    \<and> (\<forall>k. toLowerCase k \<in> {''authorization'', ''cookie'', ''set-cookie'',
                               ''proxy-authorization'', ''x-api-key''}
           \<longrightarrow> map_of (redactHeaders hs) k = None)
    \<and> filter (\<lambda>(k, v). k \<noteq> ''__proto__'') (redactHeaders hs)
        = filter (\<lambda>(k, v). toLowerCase k \<notin> {''authorization'', ''cookie'', ''set-cookie'',
                               ''proxy-authorization'', ''x-api-key''} \<and> k \<noteq> ''__proto__'') hs"
proof -
  have b: "set blocked = {''authorization'', ''cookie'', ''set-cookie'',
                               ''proxy-authorization'', ''x-api-key''}"
    by (simp add: blocked_def)
  have f: "redactHeaders hs = filter keep_header hs"
    by (rule redactHeaders_filter[OF assms])
  have 1: "\<forall>k v. (k, v) \<in> set (redactHeaders hs) \<longrightarrow> toLowerCase k \<notin> set blocked"
    by (auto simp: f keep_header_def)
  have 2: "\<forall>k. toLowerCase k \<notin> set blocked \<and> k \<noteq> ''__proto__''
              \<longrightarrow> map_of (redactHeaders hs) k = map_of hs k"
    by (simp add: f map_of_filter_keep)
  have 3: "\<forall>k. toLowerCase k \<in> set blocked \<longrightarrow> map_of (redactHeaders hs) k = None"
    by (simp add: f map_of_filter_keep)
  have 4: "filter (\<lambda>(k, v). k \<noteq> ''__proto__'') (redactHeaders hs)
        = filter (\<lambda>(k, v). toLowerCase k \<notin> set blocked \<and> k \<noteq> ''__proto__'') hs"
    unfolding f by (induction hs) (auto simp: keep_header_def)
  show ?thesis using 1 2 3 4 unfolding b by blast
qed

text \<open>
  C7, as the spec words it, lists api-key among the removed names. A header named api-key
  is kept, value included.
\<close>

theorem redactHeaders_api_key_counterexample:
  "redactHeaders [(''api-key'', ''k-123''), (''Authorization'', ''Bearer t'')]
     = [(''api-key'', ''k-123'')]"
  by code_simp

theorem redactHeaders_blocked_names_witness:
  "distinct (map fst [(''Authorization'', ''Bearer t''), (''accept'', ''*/*''), (''X-Api-Key'', ''k'')])
   \<and> map_of (redactHeaders [(''Authorization'', ''Bearer t''), (''accept'', ''*/*''),
                             (''X-Api-Key'', ''k'')]) ''accept'' = Some ''*/*''
   \<and> map_of (redactHeaders [(''Authorization'', ''Bearer t''), (''accept'', ''*/*''),
                             (''X-Api-Key'', ''k'')]) ''Authorization'' = None
   \<and> map_of (redactHeaders [(''Authorization'', ''Bearer t''), (''accept'', ''*/*''),
                             (''X-Api-Key'', ''k'')]) ''X-Api-Key'' = None"
proof -
  let ?hs = "[(''Authorization'', ''Bearer t''), (''accept'', ''*/*''), (''X-Api-Key'', ''k'')]"
  have d: "distinct (map fst ?hs)" by simp
  have l: "toLowerCase ''accept'' = ''accept''" "toLowerCase ''Authorization'' = ''authorization''"
    "toLowerCase ''X-Api-Key'' = ''x-api-key''"
    by code_simp+
  from redactHeaders_blocked_names[OF d] d l show ?thesis by simp
qed

subsection \<open>Body redaction\<close>

lemma not_bearer_marker: "\<not> is_bearer ''[redacted]''"
  by code_simp

lemma sensitive_password: "sensitive_key ''password''"
  by code_simp

lemma assign_all_no_proto_key:
  assumes "\<forall>kv \<in> set assigned. fst kv \<noteq> ''__proto__''"
  shows "assign_all assigned = JObject assigned"
proof -
  have "''__proto__'' \<notin> fst ` set assigned" using assms by auto
  then have "map_of assigned ''__proto__'' = None" by (simp add: map_of_eq_None_iff)
  then have p: "proto_after assigned = ObjectPrototype" by (simp add: proto_after_def)
  have "own_entries assigned = assigned"
    unfolding own_entries_def using assms by (intro filter_True) auto
  with p show ?thesis by (simp add: assign_all_def)
qed

text \<open>
  On values none of whose objects has the key \<^verbatim>\<open>__proto__\<close>, redacting twice at the same
  starting depth gives what redacting once gives.
\<close>

lemma redactJson_idempotent_no_proto_key:
  "no_proto_key v \<Longrightarrow> redactJson (redactJson v d) d = redactJson v d"
proof (induction v d rule: redactJson.induct)
  case (6 xs depth)
  show ?case
  proof (cases "depth > 6")
    case True
    then show ?thesis by simp
  next
    case False
    have "redactJson (redactJson x (depth + 1)) (depth + 1) = redactJson x (depth + 1)"
      if "x \<in> set (take 50 xs)" for x
    proof -
      from that have "x \<in> set xs" by (rule in_set_takeD)
      with "6.prems" have "no_proto_key x" by (simp add: list_all_iff)
      from "6.IH"[OF False that this] show ?thesis .
    qed
    then have "map (\<lambda>v. redactJson v (depth + 1)) (map (\<lambda>v. redactJson v (depth + 1)) (take 50 xs))
        = map (\<lambda>v. redactJson v (depth + 1)) (take 50 xs)"
      by simp
    moreover have "take 50 (map (\<lambda>v. redactJson v (depth + 1)) (take 50 xs))
        = map (\<lambda>v. redactJson v (depth + 1)) (take 50 xs)"
      by simp
    ultimately show ?thesis using False by simp
  qed
next
  case (7 pr kvs depth)
  let ?f = "\<lambda>(k, v). (k, if sensitive_key k then JStr ''[redacted]'' else redactJson v (depth + 1))"
  show ?case
  proof (cases "depth > 6")
    case True
    then show ?thesis by simp
  next
    case False
    have keys: "\<forall>kv \<in> set kvs. fst kv \<noteq> ''__proto__''"
      using "7.prems" by (auto simp: list_all_iff)
    have keys': "\<forall>kv \<in> set (map ?f kvs). fst kv \<noteq> ''__proto__''"
      using keys by auto
    have keys'': "\<forall>kv \<in> set (map ?f (map ?f kvs)). fst kv \<noteq> ''__proto__''"
      using keys by auto
    have once: "redactJson (JObj pr kvs) depth = JObject (map ?f kvs)"
      using False assign_all_no_proto_key[OF keys'] by simp
    have twice: "redactJson (JObject (map ?f kvs)) depth = JObject (map ?f (map ?f kvs))"
      using False assign_all_no_proto_key[OF keys''] by simp
    have "?f (?f kv) = ?f kv" if "kv \<in> set kvs" for kv
    proof -
      obtain k v where kv: "kv = (k, v)" by (cases kv)
      show ?thesis
      proof (cases "sensitive_key k")
        case True
        then show ?thesis by (simp add: kv)
      next
        case ns: False
        from that "7.prems" kv have "no_proto_key v" by (auto simp: list_all_iff)
        from "7.IH"[OF False _ refl ns this] that kv
        have "redactJson (redactJson v (depth + 1)) (depth + 1) = redactJson v (depth + 1)"
          by simp
        then show ?thesis using ns by (simp add: kv)
      qed
    qed
    then have "map ?f (map ?f kvs) = map ?f kvs" by (simp add: comp_def)
    with once twice show ?thesis by simp
  qed
qed (simp_all add: not_bearer_marker)


lemma password_hidden_JObj:
  "password_hidden (JObj pr kvs) \<longleftrightarrow>
     list_all (\<lambda>(k, v). (k \<noteq> ''password'' \<or> v = JStr ''[redacted]'') \<and> password_hidden v) kvs
     \<and> (\<forall>p. pr = Proto p \<longrightarrow> password_hidden p)"
  by (cases pr) simp_all

lemma proto_after_Proto: "proto_after assigned = Proto p \<Longrightarrow> (''__proto__'', p) \<in> set assigned"
  by (auto simp: proto_after_def split: option.splits json.splits dest: map_of_SomeD)

lemma password_hidden_assign_all:
  assumes "\<forall>kv \<in> set assigned.
             (fst kv \<noteq> ''password'' \<or> snd kv = JStr ''[redacted]'') \<and> password_hidden (snd kv)"
  shows "password_hidden (assign_all assigned)"
proof -
  have "password_hidden p" if "proto_after assigned = Proto p" for p
    using proto_after_Proto[OF that] assms by auto
  moreover have "list_all (\<lambda>(k, v). (k \<noteq> ''password'' \<or> v = JStr ''[redacted]'') \<and> password_hidden v)
      (own_entries assigned)"
    using assms by (auto simp: own_entries_def list_all_iff)
  ultimately show ?thesis by (simp add: assign_all_def password_hidden_JObj)
qed

lemma password_hidden_redactJson: "password_hidden (redactJson v d)"
proof (induction v d rule: redactJson.induct)
  case (6 xs depth)
  then show ?case by (auto simp: list_all_iff)
next
  case (7 pr kvs depth)
  show ?case
  proof (cases "depth > 6")
    case True
    then show ?thesis by simp
  next
    case False
    have ih: "password_hidden (redactJson v (depth + 1))"
      if "(k, v) \<in> set kvs" "\<not> sensitive_key k" for k v
      using 7[OF False that(1) refl that(2)] .
    have "password_hidden (assign_all (map (\<lambda>(k, v). (k, if sensitive_key k then JStr ''[redacted]''
                                           else redactJson v (depth + 1))) kvs))"
      by (rule password_hidden_assign_all) (use ih sensitive_password in auto)
    then show ?thesis using False by simp
  qed
qed simp_all

lemma map_of_own_entries:
  "map_of (own_entries assigned) k = (if k = ''__proto__'' then None else map_of assigned k)"
  by (induction assigned) (auto simp: own_entries_def)

lemma map_of_redacted_entries:
  "map_of (map (\<lambda>(k, v). (k, if sensitive_key k then JStr ''[redacted]''
                                else redactJson v d)) kvs) k
     = map_option (\<lambda>v. if sensitive_key k then JStr ''[redacted]'' else redactJson v d)
         (map_of kvs k)"
  by (induction kvs) auto

lemma child_redactJson_object:
  assumes "d \<le> 6" and "k \<noteq> ''__proto__''"
  shows "child (redactJson (JObj pr kvs) d) (Key k)
     = map_option (\<lambda>v. if sensitive_key k then JStr ''[redacted]'' else redactJson v (d + 1))
         (map_of kvs k)"
  using assms by (simp add: assign_all_def map_of_own_entries map_of_redacted_entries)

lemma child_redactJson:
  assumes "child v s = Some c" and "kept_seg s" and "d \<le> 6"
  shows "child (redactJson v d) s = Some (redactJson c (d + 1))"
proof (cases s)
  case (Key k)
  with assms obtain pr kvs where v: "v = JObj pr kvs" and m: "map_of kvs k = Some c"
    by (cases v) auto
  from assms(2) Key have ns: "\<not> sensitive_key k" and np: "k \<noteq> ''__proto__''" by simp_all
  show ?thesis
    unfolding v Key child_redactJson_object[OF assms(3) np] using ns m by simp
next
  case (Idx i)
  with assms obtain xs where v: "v = JArr xs" and i: "i < length xs" and c: "c = xs ! i"
    by (cases v) (auto split: if_splits)
  from assms(2) Idx have "i < 50" by simp
  then show ?thesis using assms(3) i c by (simp add: v Idx)
qed

lemma sensitive_entry_redacted:
  assumes "at_path v (p @ [Key k]) = Some x" and "sensitive_key k" and "k \<noteq> ''__proto__''"
    and "list_all kept_seg p" and "d + length p \<le> 6"
  shows "at_path (redactJson v d) (p @ [Key k]) = Some (JStr ''[redacted]'')"
  using assms
proof (induction p arbitrary: v d)
  case Nil
  then obtain pr kvs where v: "v = JObj pr kvs" and m: "map_of kvs k = Some x"
    by (cases v) (auto split: option.splits)
  from Nil.prems have d: "d \<le> 6" by simp
  show ?case
    using child_redactJson_object[OF d Nil.prems(3), of pr kvs] Nil.prems(2) m
    by (simp add: v)
next
  case (Cons s p)
  from Cons.prems(1) obtain c where c: "child v s = Some c" and rest: "at_path c (p @ [Key k]) = Some x"
    by (auto split: option.splits)
  from Cons.prems(4) have ks: "kept_seg s" and kp: "list_all kept_seg p" by simp_all
  from Cons.prems(5) have d: "d \<le> 6" and d': "(d + 1) + length p \<le> 6" by simp_all
  have "at_path (redactJson c (d + 1)) (p @ [Key k]) = Some (JStr ''[redacted]'')"
    by (rule Cons.IH[OF rest Cons.prems(2,3) kp d'])
  then show ?case using child_redactJson[OF c ks d] by simp
qed

text \<open>
  Three more ways for an entry to leave the captured output with its enclosing value:
  under a key that is itself redacted, in an array from position 50 on, and under the key
  \<^verbatim>\<open>__proto__\<close>, whose value becomes the prototype of the result and is not among its entries.
\<close>

lemma redactJson_under_redacted_key:
  "redactJson (JObject [(''token'', JObject [(''password'', JStr ''hunter2'')])]) 0
     = JObject [(''token'', JStr ''[redacted]'')]"
  by code_simp

lemma redactJson_clips_arrays:
  "redactJson (JArr (replicate 50 JNull @ [JObject [(''password'', JStr ''hunter2'')]])) 0
     = JArr (replicate 50 JNull)"
  by code_simp

lemma redactJson_under_proto_key:
  "redactJson (JObject [(''__proto__'', JObject [(''password'', JStr ''hunter2'')]),
                        (''b'', JNum 2)]) 0
     = JObj (Proto (JObject [(''password'', JStr ''[redacted]'')])) [(''b'', JNum 2)]"
  by code_simp

text \<open>
  C8, amended: in the output of the redaction, at any starting depth, every entry named
  password, wherever it occurs, holds the marker \<^verbatim>\<open>[redacted]\<close>; and an entry named password
  of the input that lies in an object at depth at most 6, on a path through no array
  position from 50 on, under no key that is itself redacted and under no key
  \<^verbatim>\<open>__proto__\<close>, is present in the output at the same path with the marker as its value.
\<close>

theorem redactJson_password_entries:
  "password_hidden (redactJson v d)
   \<and> (at_path v (p @ [Key ''password'']) = Some x \<and> list_all kept_seg p \<and> d + length p \<le> 6
        \<longrightarrow> at_path (redactJson v d) (p @ [Key ''password'']) = Some (JStr ''[redacted]''))"
proof -
  have "''password'' \<noteq> ''__proto__''" by simp
  from sensitive_entry_redacted[OF _ sensitive_password this] password_hidden_redactJson
  show ?thesis by blast
qed

text \<open>
  C8, as the spec words it, holds for every nesting depth. Below seven enclosing objects
  the redaction replaces the whole value by \<^verbatim>\<open>[truncated]\<close>: the entry named password is not
  mapped to the marker, it is gone from the output.
\<close>

theorem redactJson_depth_counterexample:
  "at_path
     (JObject [(''a'', JObject [(''a'', JObject [(''a'', JObject [(''a'', JObject [(''a'',
        JObject [(''a'', JObject [(''a'', JObject [(''password'', JStr ''hunter2'')])])])])])])])])
     [Key ''a'', Key ''a'', Key ''a'', Key ''a'', Key ''a'', Key ''a'', Key ''a'', Key ''password'']
     = Some (JStr ''hunter2'')
   \<and> at_path
     (redactJson
       (JObject [(''a'', JObject [(''a'', JObject [(''a'', JObject [(''a'', JObject [(''a'',
          JObject [(''a'', JObject [(''a'', JObject [(''password'', JStr ''hunter2'')])])])])])])])]) 0)
     [Key ''a'', Key ''a'', Key ''a'', Key ''a'', Key ''a'', Key ''a'', Key ''a'', Key ''password'']
     \<noteq> Some (JStr ''[redacted]'')
   \<and> redactJson
       (JObject [(''a'', JObject [(''a'', JObject [(''a'', JObject [(''a'', JObject [(''a'',
          JObject [(''a'', JObject [(''a'', JObject [(''password'', JStr ''hunter2'')])])])])])])])]) 0
     = JObject [(''a'', JObject [(''a'', JObject [(''a'', JObject [(''a'', JObject [(''a'',
          JObject [(''a'', JObject [(''a'', JStr ''[truncated]'')])])])])])])]"
  by code_simp

theorem redactJson_password_entries_witness:
  "at_path (JObject [(''user'', JStr ''ana''), (''login'', JArr [JObject [(''password'', JStr ''hunter2'')]])])
     ([Key ''login'', Idx 0] @ [Key ''password'']) = Some (JStr ''hunter2'')
   \<and> list_all kept_seg [Key ''login'', Idx 0]
   \<and> at_path (redactJson (JObject [(''user'', JStr ''ana''),
                                (''login'', JArr [JObject [(''password'', JStr ''hunter2'')]])]) 0)
     ([Key ''login'', Idx 0] @ [Key ''password'']) = Some (JStr ''[redacted]'')
   \<and> password_hidden (redactJson (JObject [(''user'', JStr ''ana''),
                                (''login'', JArr [JObject [(''password'', JStr ''hunter2'')]])]) 0)"
proof -
  let ?v = "JObject [(''user'', JStr ''ana''), (''login'', JArr [JObject [(''password'', JStr ''hunter2'')]])]"
  let ?p = "[Key ''login'', Idx 0]"
  have a: "at_path ?v (?p @ [Key ''password'']) = Some (JStr ''hunter2'')" by code_simp
  have k: "list_all kept_seg ?p" by code_simp
  have d: "0 + length ?p \<le> 6" by simp
  from redactJson_password_entries[of ?v 0 ?p "JStr ''hunter2''"] a k d
  show ?thesis by blast
qed

subsection \<open>Grid readiness\<close>











end
